theory Spec2Isabelle
  imports Complex_Main "HOL-Library.Char_ord" "HOL-Library.List_Lexorder"
    "HOL-Library.Log_Nat"
begin

section \<open>The store rating backend: data model\<close>

text \<open>
  The backend is an Express application over one SQLite connection. Its state is the
  content of four tables (\<open>users\<close>, \<open>stores\<close>, \<open>ratings\<close>, \<open>owner_requests\<close>) as
  \<open>initDb\<close> declares them. A table is the list of its rows in rowid order. Every route
  handler becomes a function from the request and the database to the response and the
  database after it.

  Conventions of the embedding:
  \<^item> ids are SQLite integers (\<open>int\<close>); a route parameter such as \<open>:storeId\<close> is the value
    SQLite compares and stores for it under the INTEGER affinity of the column;
  \<^item> \<open>CURRENT_TIMESTAMP\<close> is the reading \<open>now\<close> of the clock, handed to each handler;
  \<^item> a JSON number is a rational (every finite double is one, and \<open><\<close>, \<open>>\<close> agree);
    \<open>None\<close> is a field that the body does not have (JavaScript \<open>undefined\<close>);
  \<^item> \<open>jwt.verify\<close> is a black box: a credential arrives already classified;
  \<^item> no \<open>PRAGMA foreign_keys\<close> is ever issued in \<open>db.js\<close>, so SQLite does not enforce
    the FOREIGN KEY clauses and the model has no check for them;
  \<^item> the password hash and the \<open>created_at\<close> columns of users and stores are left out:
    no route modelled below reads or writes them.
\<close>

type_synonym timestamp = nat

datatype role = Admin | Normal | Owner

datatype req_status = Pending | Approved | Rejected

record user =
  u_id :: int
  u_name :: string
  u_email :: string
  u_address :: string
  u_role :: role

record store =
  s_id :: int
  s_name :: string
  s_email :: "string option"
  s_address :: string
  s_owner_id :: "int option"

record rating =
  r_id :: int
  r_user_id :: int
  r_store_id :: int
  r_rating :: rat
  r_created_at :: timestamp
  r_updated_at :: timestamp

record owner_request =
  q_id :: int
  q_user_id :: int
  q_status :: req_status
  q_reason :: "string option"
  q_created_at :: timestamp
  q_updated_at :: timestamp

text \<open>
  \<open>ratings_seq\<close> and \<open>owner_requests_seq\<close> are the \<open>sqlite_sequence\<close> entries of the two
  AUTOINCREMENT tables: the largest rowid ever handed out.
\<close>

record db =
  users :: "user list"
  stores :: "store list"
  ratings :: "rating list"
  owner_requests :: "owner_request list"
  ratings_seq :: int
  owner_requests_seq :: int

subsection \<open>Requests and responses\<close>

text \<open>The payload of the JWT that \<open>login\<close> signs: \<open>{ id, role, name }\<close>.\<close>

record identity =
  i_id :: int
  i_role :: role
  i_name :: string

datatype credential = NoToken | BadToken | Token identity

text \<open>The projection \<open>SELECT id, user_id, store_id, rating FROM ratings\<close>.\<close>

record rating_view =
  v_id :: int
  v_user_id :: int
  v_store_id :: int
  v_rating :: rat

text \<open>A row of \<open>GET /api/owner/store-raters/:storeId\<close>.\<close>

record rater =
  t_id :: int
  t_name :: string
  t_email :: string
  t_address :: string
  t_rating :: rat
  t_created_at :: timestamp
  t_updated_at :: timestamp

text \<open>A row of \<open>GET /api/admin/stores\<close> and of \<open>GET /api/admin/users\<close>.\<close>

record store_row =
  sr_id :: int
  sr_name :: string
  sr_email :: "string option"
  sr_address :: string
  sr_avg_rating :: rat

record user_row =
  ur_id :: int
  ur_name :: string
  ur_email :: string
  ur_address :: string
  ur_role :: role
  ur_owner_rating :: "rat option"

datatype payload =
    Message string
  | RatingJson "rating_view option"
  | RequestJson string "owner_request option"
  | RatersJson "rater list"
  | StoresJson "store_row list"
  | UsersJson "user_row list"

datatype response = Response nat payload

fun status_of :: "response \<Rightarrow> nat" where
  "status_of (Response st b) = st"

fun body_of :: "response \<Rightarrow> payload" where
  "body_of (Response st b) = b"

datatype sql_error = UniqueViolation | NotNullViolation | CheckViolation

subsection \<open>Middleware\<close>

text \<open>
  \<open>authenticate\<close>: no \<open>Bearer\<close> header gives 401 "Missing token", a token that
  \<open>jwt.verify\<close> rejects gives 401 "Invalid token", otherwise \<open>req.user\<close> is the payload.
\<close>

fun authenticate :: "credential \<Rightarrow> response + identity" where
  "authenticate NoToken = Inl (Response 401 (Message ''Missing token''))"
| "authenticate BadToken = Inl (Response 401 (Message ''Invalid token''))"
| "authenticate (Token usr) = Inr usr"

definition requireRole :: "role list \<Rightarrow> identity \<Rightarrow> response option" where
  "requireRole roles usr =
     (if i_role usr \<notin> set roles then Some (Response 403 (Message ''Forbidden'')) else None)"

definition server_error :: response where
  "server_error = Response 500 (Message ''Server error'')"

section \<open>The rating ledger\<close>

subsection \<open>The statements of the rating route\<close>

text \<open>\<open>SELECT id FROM ratings WHERE user_id = ? AND store_id = ?\<close>, first row.\<close>

definition select_rating_id :: "db \<Rightarrow> int \<Rightarrow> int \<Rightarrow> int option" where
  "select_rating_id d uid sid =
     map_option r_id (find (\<lambda>r. r_user_id r = uid \<and> r_store_id r = sid) (ratings d))"

text \<open>\<open>SELECT id, user_id, store_id, rating FROM ratings WHERE id = ?\<close>, first row.\<close>

definition select_rating_view :: "db \<Rightarrow> int \<Rightarrow> rating_view option" where
  "select_rating_view d rid =
     map_option
       (\<lambda>r. \<lparr>v_id = r_id r, v_user_id = r_user_id r, v_store_id = r_store_id r,
             v_rating = r_rating r\<rparr>)
       (find (\<lambda>r. r_id r = rid) (ratings d))"

text \<open>
  The column constraints of \<open>ratings.rating\<close>: \<open>NOT NULL\<close> and
  \<open>CHECK (rating BETWEEN 1 AND 5)\<close>. A value that is not a whole number keeps its
  REAL storage class in an INTEGER column, and the CHECK compares it numerically.
\<close>

definition rating_column :: "rat option \<Rightarrow> sql_error + rat" where
  "rating_column v =
     (case v of
        None \<Rightarrow> Inl NotNullViolation
      | Some x \<Rightarrow> if 1 \<le> x \<and> x \<le> 5 then Inr x else Inl CheckViolation)"

text \<open>
  \<open>UPDATE ratings SET rating = ?, updated_at = CURRENT_TIMESTAMP WHERE id = ?\<close>.
  The constraints are checked on the rows the statement changes; with no such row the
  statement does nothing.
\<close>

definition update_rating :: "timestamp \<Rightarrow> rat option \<Rightarrow> int \<Rightarrow> db \<Rightarrow> sql_error + db" where
  "update_rating now v rid d =
     (if \<not> list_ex (\<lambda>r. r_id r = rid) (ratings d) then Inr d
      else case rating_column v of
        Inl e \<Rightarrow> Inl e
      | Inr x \<Rightarrow>
          Inr (d\<lparr>ratings :=
                 map (\<lambda>r. if r_id r = rid then r\<lparr>r_rating := x, r_updated_at := now\<rparr> else r)
                   (ratings d)\<rparr>))"

text \<open>
  \<open>INSERT INTO ratings (user_id, store_id, rating) VALUES (?, ?, ?)\<close>: the column
  constraints, then \<open>UNIQUE (user_id, store_id)\<close>; the new rowid is one more than the
  sequence (which bounds every rowid of the table in the states the routes produce, see
  \<open>ratings_ok\<close>), both timestamps default to \<open>CURRENT_TIMESTAMP\<close>. A failed statement
  changes nothing. The result carries \<open>this.lastID\<close>.
\<close>

definition insert_rating ::
  "timestamp \<Rightarrow> int \<Rightarrow> int \<Rightarrow> rat option \<Rightarrow> db \<Rightarrow> sql_error + (int \<times> db)" where
  "insert_rating now uid sid v d =
     (case rating_column v of
        Inl e \<Rightarrow> Inl e
      | Inr x \<Rightarrow>
          if list_ex (\<lambda>r. r_user_id r = uid \<and> r_store_id r = sid) (ratings d)
          then Inl UniqueViolation
          else
            let rid = ratings_seq d + 1 in
            Inr (rid,
                 d\<lparr>ratings := ratings d @
                      [\<lparr>r_id = rid, r_user_id = uid, r_store_id = sid, r_rating = x,
                        r_created_at = now, r_updated_at = now\<rparr>],
                   ratings_seq := rid\<rparr>))"

subsection \<open>POST /api/stores/:storeId/rating\<close>

text \<open>
  JavaScript's \<open>rating < 1\<close> and \<open>rating > 5\<close>: both are false when \<open>rating\<close> is
  \<open>undefined\<close> (it converts to NaN).
\<close>

definition js_lt :: "rat option \<Rightarrow> rat \<Rightarrow> bool" where
  "js_lt x c = (case x of None \<Rightarrow> False | Some v \<Rightarrow> v < c)"

definition js_gt :: "rat option \<Rightarrow> rat \<Rightarrow> bool" where
  "js_gt x c = (case x of None \<Rightarrow> False | Some v \<Rightarrow> v > c)"

text \<open>
  The handler, behind \<open>authenticate\<close> only. Any exception of a statement lands in the
  \<open>catch\<close> and becomes 500 "Server error".
\<close>

definition submitRating ::
  "timestamp \<Rightarrow> credential \<Rightarrow> int \<Rightarrow> rat option \<Rightarrow> db \<Rightarrow> response \<times> db" where
  "submitRating now cred storeId rating d =
     (case authenticate cred of
        Inl denied \<Rightarrow> (denied, d)
      | Inr usr \<Rightarrow>
          if js_lt rating 1 \<or> js_gt rating 5
          then (Response 400 (Message ''Rating must be between 1 and 5''), d)
          else
            (case select_rating_id d (i_id usr) storeId of
               Some existing \<Rightarrow>
                 (case update_rating now rating existing d of
                    Inl e \<Rightarrow> (server_error, d)
                  | Inr d' \<Rightarrow> (Response 200 (RatingJson (select_rating_view d' existing)), d'))
             | None \<Rightarrow>
                 (case insert_rating now (i_id usr) storeId rating d of
                    Inl e \<Rightarrow> (server_error, d)
                  | Inr (rid, d') \<Rightarrow>
                      (Response 201 (RatingJson (select_rating_view d' rid)), d'))))"

text \<open>One call of the route, and a sequence of calls run one after the other.\<close>

record rating_call =
  c_now :: timestamp
  c_cred :: credential
  c_store :: int
  c_rating :: "rat option"

definition submit_call :: "rating_call \<Rightarrow> db \<Rightarrow> response \<times> db" where
  "submit_call c d = submitRating (c_now c) (c_cred c) (c_store c) (c_rating c) d"

fun submit_all :: "rating_call list \<Rightarrow> db \<Rightarrow> db" where
  "submit_all [] d = d"
| "submit_all (c # cs) d = submit_all cs (snd (submit_call c d))"

text \<open>The rating rows of one (user, store) pair.\<close>

definition ratings_of :: "db \<Rightarrow> int \<Rightarrow> int \<Rightarrow> rating list" where
  "ratings_of d uid sid = filter (\<lambda>r. r_user_id r = uid \<and> r_store_id r = sid) (ratings d)"

text \<open>
  The table constraints of \<open>ratings\<close> as a property of a state: \<open>UNIQUE (user_id,
  store_id)\<close>, the primary key, and rowids within the sequence.
\<close>

definition ratings_ok :: "db \<Rightarrow> bool" where
  "ratings_ok d =
     (distinct (map (\<lambda>r. (r_user_id r, r_store_id r)) (ratings d)) \<and>
      distinct (map r_id (ratings d)) \<and>
      list_all (\<lambda>r. r_id r \<le> ratings_seq d) (ratings d))"

text \<open>\<open>UNIQUE (user_id, store_id)\<close> alone.\<close>

definition ratings_unique :: "db \<Rightarrow> bool" where
  "ratings_unique d = distinct (map (\<lambda>r. (r_user_id r, r_store_id r)) (ratings d))"

text \<open>The database right after \<open>initDb\<close> on an empty file: the seeded admin only.\<close>

definition fresh_db :: db where
  "fresh_db =
     \<lparr>users = [\<lparr>u_id = 1, u_name = ''Default System Admin'', u_email = ''admin@example.com'',
                 u_address = ''Admin Address'', u_role = Admin\<rparr>],
      stores = [], ratings = [], owner_requests = [],
      ratings_seq = 0, owner_requests_seq = 0\<rparr>"

text \<open>The fresh database after user 2 rated store 1 with 4 at time 10.\<close>

definition once_db :: db where
  "once_db =
     fresh_db\<lparr>ratings :=
                 [\<lparr>r_id = 1, r_user_id = 2, r_store_id = 1, r_rating = 4,
                   r_created_at = 10, r_updated_at = 10\<rparr>],
               ratings_seq := 1\<rparr>"

text \<open>Fixtures for the concrete runs below: a normal user, an owner, an admin.\<close>

definition alice :: identity where
  "alice = \<lparr>i_id = 2, i_role = Normal, i_name = ''Alice''\<rparr>"

definition olga :: identity where
  "olga = \<lparr>i_id = 3, i_role = Owner, i_name = ''Olga''\<rparr>"

definition root_admin :: identity where
  "root_admin = \<lparr>i_id = 1, i_role = Admin, i_name = ''Default System Admin''\<rparr>"

section \<open>The owner-request workflow\<close>

text \<open>\<open>SELECT * FROM owner_requests WHERE id = ?\<close>, first row.\<close>

definition select_request :: "db \<Rightarrow> int \<Rightarrow> owner_request option" where
  "select_request d qid = find (\<lambda>q. q_id q = qid) (owner_requests d)"

text \<open>\<open>UPDATE users SET role = 'owner' WHERE id = ?\<close>.\<close>

definition update_role_owner :: "int \<Rightarrow> db \<Rightarrow> db" where
  "update_role_owner uid d =
     d\<lparr>users := map (\<lambda>u. if u_id u = uid then u\<lparr>u_role := Owner\<rparr> else u) (users d)\<rparr>"

text \<open>
  \<open>UPDATE owner_requests SET status = 'approved', updated_at = CURRENT_TIMESTAMP
  WHERE id = ?\<close>.
\<close>

definition update_request_approved :: "timestamp \<Rightarrow> int \<Rightarrow> db \<Rightarrow> db" where
  "update_request_approved now qid d =
     d\<lparr>owner_requests :=
         map (\<lambda>q. if q_id q = qid then q\<lparr>q_status := Approved, q_updated_at := now\<rparr> else q)
           (owner_requests d)\<rparr>"

text \<open>
  \<open>UPDATE owner_requests SET status = 'rejected', reason = ?, updated_at =
  CURRENT_TIMESTAMP WHERE id = ?\<close>.
\<close>

definition update_request_rejected :: "timestamp \<Rightarrow> string \<Rightarrow> int \<Rightarrow> db \<Rightarrow> db" where
  "update_request_rejected now reason qid d =
     d\<lparr>owner_requests :=
         map (\<lambda>q. if q_id q = qid
                  then q\<lparr>q_status := Rejected, q_reason := Some reason, q_updated_at := now\<rparr>
                  else q)
           (owner_requests d)\<rparr>"

text \<open>
  \<open>reason || 'Request rejected by admin'\<close>: a missing or empty reason is falsy.
\<close>

definition reason_or_default :: "string option \<Rightarrow> string" where
  "reason_or_default reason =
     (case reason of
        None \<Rightarrow> ''Request rejected by admin''
      | Some txt \<Rightarrow> if txt = [] then ''Request rejected by admin'' else txt)"

text \<open>\<open>POST /api/admin/owner-requests/:requestId/approve\<close>, behind
  \<open>authenticate\<close> and \<open>requireRole('admin')\<close>.\<close>

definition approveOwnerRequest ::
  "timestamp \<Rightarrow> credential \<Rightarrow> int \<Rightarrow> db \<Rightarrow> response \<times> db" where
  "approveOwnerRequest now cred requestId d =
     (case authenticate cred of
        Inl denied \<Rightarrow> (denied, d)
      | Inr usr \<Rightarrow>
          (case requireRole [Admin] usr of
             Some denied \<Rightarrow> (denied, d)
           | None \<Rightarrow>
               (case select_request d requestId of
                  None \<Rightarrow> (Response 404 (Message ''Request not found''), d)
                | Some request \<Rightarrow>
                    if q_status request \<noteq> Pending
                    then (Response 400 (Message ''Request is not pending''), d)
                    else
                      let d1 = update_role_owner (q_user_id request) d;
                          d2 = update_request_approved now requestId d1
                      in (Response 200
                            (RequestJson ''Owner request approved'' (select_request d2 requestId)),
                          d2))))"

text \<open>\<open>POST /api/admin/owner-requests/:requestId/reject\<close>.\<close>

definition rejectOwnerRequest ::
  "timestamp \<Rightarrow> credential \<Rightarrow> int \<Rightarrow> string option \<Rightarrow> db \<Rightarrow> response \<times> db" where
  "rejectOwnerRequest now cred requestId reason d =
     (case authenticate cred of
        Inl denied \<Rightarrow> (denied, d)
      | Inr usr \<Rightarrow>
          (case requireRole [Admin] usr of
             Some denied \<Rightarrow> (denied, d)
           | None \<Rightarrow>
               (case select_request d requestId of
                  None \<Rightarrow> (Response 404 (Message ''Request not found''), d)
                | Some request \<Rightarrow>
                    if q_status request \<noteq> Pending
                    then (Response 400 (Message ''Request is not pending''), d)
                    else
                      let d1 = update_request_rejected now (reason_or_default reason) requestId d
                      in (Response 200
                            (RequestJson ''Owner request rejected'' (select_request d1 requestId)),
                          d1))))"

text \<open>
  \<open>SELECT * FROM owner_requests WHERE user_id = ? AND status IN ('pending',
  'approved')\<close>, first row.
\<close>

definition select_active_request :: "db \<Rightarrow> int \<Rightarrow> owner_request option" where
  "select_active_request d uid =
     find (\<lambda>q. q_user_id q = uid \<and> (q_status q = Pending \<or> q_status q = Approved))
       (owner_requests d)"

text \<open>
  \<open>INSERT INTO owner_requests (user_id, status) VALUES (?, 'pending')\<close> under
  \<open>UNIQUE (user_id)\<close>: \<open>reason\<close> is NULL, both timestamps default to the clock.
\<close>

definition insert_owner_request :: "timestamp \<Rightarrow> int \<Rightarrow> db \<Rightarrow> sql_error + (int \<times> db)" where
  "insert_owner_request now uid d =
     (if list_ex (\<lambda>q. q_user_id q = uid) (owner_requests d) then Inl UniqueViolation
      else
        let qid = owner_requests_seq d + 1 in
        Inr (qid,
             d\<lparr>owner_requests := owner_requests d @
                  [\<lparr>q_id = qid, q_user_id = uid, q_status = Pending, q_reason = None,
                    q_created_at = now, q_updated_at = now\<rparr>],
               owner_requests_seq := qid\<rparr>))"

text \<open>\<open>POST /api/user/request-owner\<close>, behind \<open>authenticate\<close> and
  \<open>requireRole('normal')\<close>. The \<open>catch\<close> answers every exception with 500.\<close>

definition requestOwner :: "timestamp \<Rightarrow> credential \<Rightarrow> db \<Rightarrow> response \<times> db" where
  "requestOwner now cred d =
     (case authenticate cred of
        Inl denied \<Rightarrow> (denied, d)
      | Inr usr \<Rightarrow>
          (case requireRole [Normal] usr of
             Some denied \<Rightarrow> (denied, d)
           | None \<Rightarrow>
               (case select_active_request d (i_id usr) of
                  Some existingRequest \<Rightarrow>
                    (Response 400
                       (Message ''You already have a pending or approved owner request''), d)
                | None \<Rightarrow>
                    (case insert_owner_request now (i_id usr) d of
                       Inl e \<Rightarrow> (server_error, d)
                     | Inr (qid, d') \<Rightarrow>
                         (Response 201
                            (RequestJson ''Owner request submitted'' (select_request d' qid)),
                          d')))))"

text \<open>The owner requests of one user.\<close>

definition requests_of :: "db \<Rightarrow> int \<Rightarrow> owner_request list" where
  "requests_of d uid = filter (\<lambda>q. q_user_id q = uid) (owner_requests d)"

text \<open>The primary key of \<open>owner_requests\<close> and its sequence, as a property of a state.\<close>

definition requests_ok :: "db \<Rightarrow> bool" where
  "requests_ok d =
     (distinct (map q_id (owner_requests d)) \<and>
      list_all (\<lambda>q. q_id q \<le> owner_requests_seq d) (owner_requests d))"

text \<open>
  The state-changing routes as one type of operation, and a run of operations in
  sequence, each on the state its predecessor left.
\<close>

datatype operation =
    Rate timestamp credential int "rat option"
  | AskOwner timestamp credential
  | Approve timestamp credential int
  | Reject timestamp credential int "string option"

fun perform :: "operation \<Rightarrow> db \<Rightarrow> response \<times> db" where
  "perform (Rate now cred storeId rating) d = submitRating now cred storeId rating d"
| "perform (AskOwner now cred) d = requestOwner now cred d"
| "perform (Approve now cred requestId) d = approveOwnerRequest now cred requestId d"
| "perform (Reject now cred requestId reason) d = rejectOwnerRequest now cred requestId reason d"

fun perform_all :: "operation list \<Rightarrow> db \<Rightarrow> db" where
  "perform_all [] d = d"
| "perform_all (x # xs) d = perform_all xs (snd (perform x d))"

text \<open>The lookup by id finds the request \<open>q\<close>, and \<open>q\<close> is no longer pending.\<close>

definition decided :: "db \<Rightarrow> int \<Rightarrow> owner_request \<Rightarrow> bool" where
  "decided d qid q = (select_request d qid = Some q \<and> q_status q \<noteq> Pending)"

text \<open>A state in which user 2 has asked and waits for the decision.\<close>

definition asked_db :: db where
  "asked_db =
     fresh_db\<lparr>users := users fresh_db @
                 [\<lparr>u_id = 2, u_name = ''Alice'', u_email = ''alice@example.com'',
                   u_address = [], u_role = Normal\<rparr>],
               owner_requests :=
                 [\<lparr>q_id = 1, q_user_id = 2, q_status = Pending, q_reason = None,
                   q_created_at = 5, q_updated_at = 5\<rparr>],
               owner_requests_seq := 1\<rparr>"

text \<open>A state in which user 2 was turned down once.\<close>

definition turned_down_db :: db where
  "turned_down_db =
     fresh_db\<lparr>owner_requests :=
                 [\<lparr>q_id = 1, q_user_id = 2, q_status = Rejected,
                   q_reason = Some ''Does not meet criteria'',
                   q_created_at = 5, q_updated_at = 8\<rparr>],
               owner_requests_seq := 1\<rparr>"

definition otto :: identity where
  "otto = \<lparr>i_id = 4, i_role = Owner, i_name = ''Otto''\<rparr>"

section \<open>The aggregate query surface\<close>

subsection \<open>Doubles\<close>

text \<open>
  SQLite computes \<open>AVG\<close> in IEEE 754 binary64. A finite double is a rational, and an
  operation on doubles is the exact operation followed by rounding to the nearest
  double, ties to the even significand. \<open>binade x\<close> is the exponent of a positive
  \<open>x\<close> (the \<open>e\<close> with \<open>2^e \<le> x < 2^(e+1)\<close>), the spacing of the doubles there is
  \<open>2^(e - 52)\<close>, and below \<open>2^-1022\<close> the spacing stays that of the subnormals. Beyond
  the largest double the machine has an infinity, which is no rational: the model does not
  represent overflow.
\<close>

definition pow2 :: "int \<Rightarrow> rat" where
  "pow2 k = (if 0 \<le> k then 2 ^ nat k else 1 / 2 ^ nat (- k))"

definition binade :: "rat \<Rightarrow> int" where
  "binade x = (if 1 \<le> x then bitlen \<lfloor>x\<rfloor> - 1 else - bitlen (\<lceil>1 / x\<rceil> - 1))"

definition round_half_even :: "rat \<Rightarrow> int" where
  "round_half_even y =
     (let f = \<lfloor>y\<rfloor>; r = y - of_int f
      in if r < 1 / 2 then f else if 1 / 2 < r then f + 1 else if even f then f else f + 1)"

definition round_pos :: "rat \<Rightarrow> rat" where
  "round_pos x =
     (let ulp = pow2 (max (binade x) (- 1022) - 52)
      in of_int (round_half_even (x / ulp)) * ulp)"

definition round_double :: "rat \<Rightarrow> rat" where
  "round_double x = (if x = 0 then 0 else if 0 < x then round_pos x else - round_pos (- x))"

subsection \<open>AVG and COALESCE\<close>
















text \<open>A state with two stores of owner 3; store 1 is rated 4 and 5, store 2 is not rated.\<close>

definition rated_db :: db where
  "rated_db =
     fresh_db\<lparr>users := users fresh_db @
                 [\<lparr>u_id = 2, u_name = ''Alice'', u_email = ''alice@example.com'',
                   u_address = [], u_role = Normal\<rparr>,
                  \<lparr>u_id = 3, u_name = ''Olga'', u_email = ''olga@example.com'',
                   u_address = [], u_role = Owner\<rparr>,
                  \<lparr>u_id = 4, u_name = ''Otto'', u_email = ''otto@example.com'',
                   u_address = [], u_role = Owner\<rparr>],
               stores :=
                 [\<lparr>s_id = 1, s_name = ''Bakery'', s_email = None, s_address = [],
                   s_owner_id = Some 3\<rparr>,
                  \<lparr>s_id = 2, s_name = ''Atelier'', s_email = None, s_address = [],
                   s_owner_id = Some 3\<rparr>],
               ratings :=
                 [\<lparr>r_id = 1, r_user_id = 2, r_store_id = 1, r_rating = 4,
                   r_created_at = 10, r_updated_at = 10\<rparr>,
                  \<lparr>r_id = 2, r_user_id = 1, r_store_id = 1, r_rating = 5,
                   r_created_at = 11, r_updated_at = 12\<rparr>],
               ratings_seq := 2\<rparr>"




section \<open>The owner's view of the raters\<close>

text \<open>
  \<open>GET /api/owner/store-raters/:storeId\<close>, behind \<open>authenticate\<close> and
  \<open>requireRole('owner')\<close>. The ownership check is
  \<open>SELECT id FROM stores WHERE id = ? AND owner_id = ?\<close>; a NULL \<open>owner_id\<close> equals
  nothing. The list is \<open>ratings r JOIN users u ON u.id = r.user_id WHERE r.store_id = ?
  ORDER BY r.updated_at DESC\<close>.
\<close>

definition select_owned_store :: "db \<Rightarrow> int \<Rightarrow> int \<Rightarrow> int option" where
  "select_owned_store d storeId uid =
     map_option s_id (find (\<lambda>s. s_id s = storeId \<and> s_owner_id s = Some uid) (stores d))"

definition select_raters :: "db \<Rightarrow> int \<Rightarrow> rater list" where
  "select_raters d storeId =
     sort_key (\<lambda>t. - int (t_updated_at t))
       [\<lparr>t_id = u_id u, t_name = u_name u, t_email = u_email u, t_address = u_address u,
         t_rating = r_rating r, t_created_at = r_created_at r, t_updated_at = r_updated_at r\<rparr>.
        r \<leftarrow> ratings d, u \<leftarrow> users d, u_id u = r_user_id r, r_store_id r = storeId]"

definition storeRaters :: "credential \<Rightarrow> int \<Rightarrow> db \<Rightarrow> response" where
  "storeRaters cred storeId d =
     (case authenticate cred of
        Inl denied \<Rightarrow> denied
      | Inr usr \<Rightarrow>
          (case requireRole [Owner] usr of
             Some denied \<Rightarrow> denied
           | None \<Rightarrow>
               (case select_owned_store d storeId (i_id usr) of
                  None \<Rightarrow> Response 403 (Message ''Not your store'')
                | Some ownerCheck \<Rightarrow> Response 200 (RatersJson (select_raters d storeId)))))"

section \<open>Two rating calls in flight\<close>

text \<open>
  Node runs a handler up to its next \<open>await\<close>; the statements of two requests on the
  one connection run one at a time, in the order the event loop reaches them. A call of
  the rating route is therefore three steps, and between two steps of one call a step of
  another call may run:
  \<^enum> the guard and the lookup \<open>SELECT id ...\<close>;
  \<^enum> the \<open>UPDATE\<close> or the \<open>INSERT\<close>, chosen by what the lookup returned;
  \<^enum> the read-back \<open>SELECT ... WHERE id = ?\<close> and the response.
  A phase records where a call stands: the local variables it holds.
\<close>

datatype phase =
    Start
  | Looked identity "int option"
  | Wrote nat int
  | Finished response

fun submit_step :: "rating_call \<Rightarrow> phase \<Rightarrow> db \<Rightarrow> phase \<times> db" where
  "submit_step c Start d =
     (case authenticate (c_cred c) of
        Inl denied \<Rightarrow> (Finished denied, d)
      | Inr usr \<Rightarrow>
          if js_lt (c_rating c) 1 \<or> js_gt (c_rating c) 5
          then (Finished (Response 400 (Message ''Rating must be between 1 and 5'')), d)
          else (Looked usr (select_rating_id d (i_id usr) (c_store c)), d))"
| "submit_step c (Looked usr (Some existing)) d =
     (case update_rating (c_now c) (c_rating c) existing d of
        Inl e \<Rightarrow> (Finished server_error, d)
      | Inr d' \<Rightarrow> (Wrote 200 existing, d'))"
| "submit_step c (Looked usr None) d =
     (case insert_rating (c_now c) (i_id usr) (c_store c) (c_rating c) d of
        Inl e \<Rightarrow> (Finished server_error, d)
      | Inr (rid, d') \<Rightarrow> (Wrote 201 rid, d'))"
| "submit_step c (Wrote st rid) d =
     (Finished (Response st (RatingJson (select_rating_view d rid))), d)"
| "submit_step c (Finished resp) d = (Finished resp, d)"

text \<open>A call that runs alone takes its three steps back to back.\<close>

definition submit_alone :: "rating_call \<Rightarrow> db \<Rightarrow> phase \<times> db" where
  "submit_alone c d =
     (case submit_step c Start d of
        (p1, d1) \<Rightarrow>
          (case submit_step c p1 d1 of
             (p2, d2) \<Rightarrow> submit_step c p2 d2))"

text \<open>
  Two calls \<open>ca\<close> and \<open>cb\<close> and a schedule that says whose step runs next. \<open>commits\<close>
  is a history kept beside the program: the value of every write statement that
  succeeded, the latest first.
\<close>

datatype turn = A | B

record race =
  phase_a :: phase
  phase_b :: phase
  shared :: db
  commits :: "rat option list"

fun is_write :: "phase \<Rightarrow> phase \<Rightarrow> bool" where
  "is_write (Looked usr e) (Wrote st rid) = True"
| "is_write p q = False"

fun race_step :: "rating_call \<Rightarrow> rating_call \<Rightarrow> turn \<Rightarrow> race \<Rightarrow> race" where
  "race_step ca cb A r =
     (case submit_step ca (phase_a r) (shared r) of
        (p, d) \<Rightarrow>
          r\<lparr>phase_a := p, shared := d,
            commits := (if is_write (phase_a r) p then c_rating ca # commits r else commits r)\<rparr>)"
| "race_step ca cb B r =
     (case submit_step cb (phase_b r) (shared r) of
        (p, d) \<Rightarrow>
          r\<lparr>phase_b := p, shared := d,
            commits := (if is_write (phase_b r) p then c_rating cb # commits r else commits r)\<rparr>)"

fun run_schedule :: "rating_call \<Rightarrow> rating_call \<Rightarrow> turn list \<Rightarrow> race \<Rightarrow> race" where
  "run_schedule ca cb [] r = r"
| "run_schedule ca cb (t # ts) r = run_schedule ca cb ts (race_step ca cb t r)"

definition race_start :: "db \<Rightarrow> race" where
  "race_start d = \<lparr>phase_a = Start, phase_b = Start, shared = d, commits = []\<rparr>"

fun is_finished :: "phase \<Rightarrow> bool" where
  "is_finished (Finished resp) = True"
| "is_finished p = False"

text \<open>Two calls of user 2 for store 1, with the values 4 and 5.\<close>

definition call_four :: rating_call where
  "call_four = \<lparr>c_now = 10, c_cred = Token alice, c_store = 1, c_rating = Some 4\<rparr>"

definition call_five :: rating_call where
  "call_five = \<lparr>c_now = 11, c_cred = Token alice, c_store = 1, c_rating = Some 5\<rparr>"

text \<open>
  A call of user \<open>u\<close> for store \<open>s\<close> with a token that verifies and a value from 1
  to 5.
\<close>

definition valid_call :: "int \<Rightarrow> int \<Rightarrow> rating_call \<Rightarrow> bool" where
  "valid_call u s c =
     (case c_cred c of
        Token usr \<Rightarrow>
          i_id usr = u \<and> c_store c = s \<and>
          (case c_rating c of None \<Rightarrow> False | Some x \<Rightarrow> 1 \<le> x \<and> x \<le> 5)
      | _ \<Rightarrow> False)"

text \<open>The steps a call has yet to take.\<close>

fun steps_left :: "phase \<Rightarrow> nat" where
  "steps_left Start = 3"
| "steps_left (Looked usr e) = 2"
| "steps_left (Wrote st rid) = 1"
| "steps_left (Finished resp) = 0"

text \<open>A schedule that gives each call the three turns it needs.\<close>

definition complete :: "turn list \<Rightarrow> bool" where
  "complete sch = (3 \<le> count_list sch A \<and> 3 \<le> count_list sch B)"

text \<open>
  What a call in flight may rely on, given the state and the history: a row it found is
  still there; if it found none and the pair has a row by now, a write has happened
  since; once it has written or answered, a write has happened.
\<close>

fun phase_inv :: "int \<Rightarrow> int \<Rightarrow> db \<Rightarrow> rat option list \<Rightarrow> phase \<Rightarrow> bool" where
  "phase_inv u s d h Start = True"
| "phase_inv u s d h (Looked usr (Some rid)) =
     (i_id usr = u \<and>
      list_ex (\<lambda>r. r_id r = rid \<and> r_user_id r = u \<and> r_store_id r = s) (ratings d))"
| "phase_inv u s d h (Looked usr None) =
     (i_id usr = u \<and> (ratings_of d u s = [] \<or> h \<noteq> []))"
| "phase_inv u s d h (Wrote st rid) = (h \<noteq> [])"
| "phase_inv u s d h (Finished resp) = (h \<noteq> [])"

text \<open>The row of the pair holds the value of the latest write, if there was a write.\<close>

definition latest_written :: "int \<Rightarrow> int \<Rightarrow> db \<Rightarrow> rat option list \<Rightarrow> bool" where
  "latest_written u s d h =
     (case h of
        [] \<Rightarrow> True
      | v # rest \<Rightarrow>
          (case ratings_of d u s of
             [row] \<Rightarrow> v = Some (r_rating row)
           | _ \<Rightarrow> False))"

definition race_inv :: "int \<Rightarrow> int \<Rightarrow> race \<Rightarrow> bool" where
  "race_inv u s r =
     (ratings_ok (shared r) \<and>
      phase_inv u s (shared r) (commits r) (phase_a r) \<and>
      phase_inv u s (shared r) (commits r) (phase_b r) \<and>
      latest_written u s (shared r) (commits r))"

section \<open>Properties of the rating ledger\<close>

subsection \<open>Lookups\<close>

lemma select_rating_id_None:
  "select_rating_id d uid sid = None \<longleftrightarrow>
     \<not> list_ex (\<lambda>r. r_user_id r = uid \<and> r_store_id r = sid) (ratings d)"
  by (auto simp: select_rating_id_def find_None_iff list_ex_iff)

lemma select_rating_id_Some:
  "select_rating_id d uid sid = Some rid \<Longrightarrow>
     \<exists>r \<in> set (ratings d). r_id r = rid \<and> r_user_id r = uid \<and> r_store_id r = sid"
  by (auto simp: select_rating_id_def find_Some_iff)

lemma find_filter_hd:
  "filter P xs = y # ys \<Longrightarrow> find P xs = Some y"
  by (induction xs) (auto split: if_splits)

lemma find_filter_Nil:
  "filter P xs = [] \<Longrightarrow> find P xs = None"
  by (simp add: find_None_iff filter_empty_conv)

lemma find_append_last:
  "\<forall>x \<in> set xs. \<not> P x \<Longrightarrow> P y \<Longrightarrow> find P (xs @ [y]) = Some y"
  by (induction xs) auto

lemma find_map_upd:
  "find P xs = Some y \<Longrightarrow> (\<And>r. P (h r) = P r) \<Longrightarrow> (\<And>r. P r \<Longrightarrow> Q r) \<Longrightarrow>
     find P (map (\<lambda>r. if Q r then h r else r) xs) = Some (h y)"
  by (induction xs) (auto split: if_splits)

lemma map_upd_proj:
  "(\<And>r. g (h r) = g r) \<Longrightarrow> map g (map (\<lambda>r. if P r then h r else r) xs) = map g xs"
  by (induction xs) auto

lemma distinct_key_filter:
  "distinct (map f xs) \<Longrightarrow> length (filter (\<lambda>x. f x = k) xs) \<le> 1"
  by (induction xs) (auto simp: filter_empty_conv image_iff)

subsection \<open>The uniqueness constraint is kept\<close>

lemma update_rating_keys:
  "update_rating now v rid d = Inr d' \<Longrightarrow>
     map (\<lambda>r. (r_user_id r, r_store_id r)) (ratings d') =
     map (\<lambda>r. (r_user_id r, r_store_id r)) (ratings d)"
  by (auto simp: update_rating_def map_upd_proj split: if_splits sum.splits)

lemma update_rating_ids:
  "update_rating now v rid d = Inr d' \<Longrightarrow>
     map r_id (ratings d') = map r_id (ratings d) \<and> ratings_seq d' = ratings_seq d"
  by (auto simp: update_rating_def map_upd_proj split: if_splits sum.splits)

lemma insert_rating_unique:
  "insert_rating now uid sid v d = Inr (rid, d') \<Longrightarrow> ratings_unique d \<Longrightarrow> ratings_unique d'"
  by (auto simp: insert_rating_def ratings_unique_def list_ex_iff Let_def
           split: sum.splits if_splits)

lemma submitRating_unique:
  "ratings_unique d \<Longrightarrow> ratings_unique (snd (submitRating now cred sid v d))"
  by (auto simp: submitRating_def ratings_unique_def update_rating_keys
           dest: insert_rating_unique[unfolded ratings_unique_def]
           split: sum.splits option.splits)

lemma submit_all_unique:
  "ratings_unique d \<Longrightarrow> ratings_unique (submit_all cs d)"
  by (induction cs arbitrary: d) (simp_all add: submit_call_def submitRating_unique)

lemma fresh_db_unique: "ratings_unique fresh_db"
  by (simp add: ratings_unique_def fresh_db_def)

text \<open>
  Claim C1. Start from any state that satisfies \<open>UNIQUE (user_id, store_id)\<close> (the
  fresh database does) and run any sequence of calls of the rating route, whatever their
  credentials, stores and values: for every user \<open>u\<close> and store \<open>s\<close> the table holds at
  most one rating row of the pair.
\<close>

theorem rating_pair_unique:
  "ratings_unique d \<Longrightarrow> length (ratings_of (submit_all cs d) u s) \<le> 1"
proof -
  assume "ratings_unique d"
  then have "distinct (map (\<lambda>r. (r_user_id r, r_store_id r)) (ratings (submit_all cs d)))"
    using submit_all_unique[of d cs] by (simp add: ratings_unique_def)
  from distinct_key_filter[OF this, of "(u, s)"] show ?thesis
    by (simp add: ratings_of_def)
qed

theorem rating_pair_unique_witness:
  "ratings_unique fresh_db \<and>
   length (ratings_of (submit_all [call_four, call_five, call_four] fresh_db) 2 1) \<le> 1"
  using rating_pair_unique[OF fresh_db_unique, of "[call_four, call_five, call_four]" 2 1]
    fresh_db_unique
  by simp

subsection \<open>The two branches of the upsert\<close>

lemma submitRating_created:
  assumes ok: "ratings_ok d" and lo: "1 \<le> x" and hi: "x \<le> 5"
    and none: "ratings_of d (i_id usr) sid = []"
  shows "submitRating now (Token usr) sid (Some x) d =
           (Response 201 (RatingJson (Some
              \<lparr>v_id = ratings_seq d + 1, v_user_id = i_id usr, v_store_id = sid, v_rating = x\<rparr>)),
            d\<lparr>ratings := ratings d @
                 [\<lparr>r_id = ratings_seq d + 1, r_user_id = i_id usr, r_store_id = sid,
                   r_rating = x, r_created_at = now, r_updated_at = now\<rparr>],
              ratings_seq := ratings_seq d + 1\<rparr>)"
proof -
  let ?new = "\<lparr>r_id = ratings_seq d + 1, r_user_id = i_id usr, r_store_id = sid,
                 r_rating = x, r_created_at = now, r_updated_at = now\<rparr>"
  from none have sel: "select_rating_id d (i_id usr) sid = None"
    by (simp add: select_rating_id_def ratings_of_def find_filter_Nil)
  then have nex: "\<not> list_ex (\<lambda>r. r_user_id r = i_id usr \<and> r_store_id r = sid) (ratings d)"
    by (simp add: select_rating_id_None)
  from ok have "\<forall>r \<in> set (ratings d). \<not> r_id r = ratings_seq d + 1"
    by (auto simp: ratings_ok_def list_all_iff)
  then have "find (\<lambda>r. r_id r = ratings_seq d + 1) (ratings d @ [?new]) = Some ?new"
    by (rule find_append_last) simp
  then show ?thesis
    using sel nex lo hi
    by (simp add: submitRating_def js_lt_def js_gt_def insert_rating_def rating_column_def
          select_rating_view_def Let_def)
qed

lemma submitRating_updated:
  assumes ok: "ratings_ok d" and lo: "1 \<le> x" and hi: "x \<le> 5"
    and one: "ratings_of d (i_id usr) sid = [old]"
  shows "submitRating now (Token usr) sid (Some x) d =
           (Response 200 (RatingJson (Some
              \<lparr>v_id = r_id old, v_user_id = i_id usr, v_store_id = sid, v_rating = x\<rparr>)),
            d\<lparr>ratings :=
                 map (\<lambda>r. if r_user_id r = i_id usr \<and> r_store_id r = sid
                          then r\<lparr>r_rating := x, r_updated_at := now\<rparr> else r)
                   (ratings d)\<rparr>)"
proof -
  let ?key = "\<lambda>r. r_user_id r = i_id usr \<and> r_store_id r = sid"
  let ?h = "\<lambda>r. r\<lparr>r_rating := x, r_updated_at := now\<rparr>"
  from one have fnd: "find ?key (ratings d) = Some old"
    by (simp add: ratings_of_def find_filter_hd)
  then have sel: "select_rating_id d (i_id usr) sid = Some (r_id old)"
    by (simp add: select_rating_id_def)
  from one have "old \<in> set (filter ?key (ratings d))"
    by (simp add: ratings_of_def)
  then have old_in: "old \<in> set (ratings d)" and old_key: "?key old"
    by auto
  have same: "r_id r = r_id old \<longleftrightarrow> ?key r" if "r \<in> set (ratings d)" for r
  proof
    assume "r_id r = r_id old"
    with ok old_in that have "r = old"
      by (auto simp: ratings_ok_def distinct_map dest: inj_onD)
    with old_key show "?key r" by simp
  next
    assume "?key r"
    with that have "r \<in> set (filter ?key (ratings d))" by simp
    with one have "r = old" by (simp add: ratings_of_def)
    then show "r_id r = r_id old" by simp
  qed
  then have maps: "map (\<lambda>r. if r_id r = r_id old then ?h r else r) (ratings d) =
                   map (\<lambda>r. if ?key r then ?h r else r) (ratings d)"
    by (intro map_cong) auto
  from old_in have ex: "list_ex (\<lambda>r. r_id r = r_id old) (ratings d)"
    by (auto simp: list_ex_iff)
  from old_in obtain y where fid: "find (\<lambda>r. r_id r = r_id old) (ratings d) = Some y"
    by (cases "find (\<lambda>r. r_id r = r_id old) (ratings d)") (auto simp: find_None_iff)
  then have "y \<in> set (ratings d)" "r_id y = r_id old"
    by (auto simp: find_Some_iff)
  with ok old_in have "y = old"
    by (auto simp: ratings_ok_def distinct_map dest: inj_onD)
  with fid have "find (\<lambda>r. r_id r = r_id old)
                   (map (\<lambda>r. if r_id r = r_id old then ?h r else r) (ratings d)) = Some (?h old)"
    by (intro find_map_upd) auto
  then have view: "select_rating_view
                     (d\<lparr>ratings := map (\<lambda>r. if r_id r = r_id old then ?h r else r) (ratings d)\<rparr>)
                     (r_id old) =
                   Some \<lparr>v_id = r_id old, v_user_id = i_id usr, v_store_id = sid, v_rating = x\<rparr>"
    using old_key by (simp add: select_rating_view_def)
  have upd: "update_rating now (Some x) (r_id old) d =
               Inr (d\<lparr>ratings := map (\<lambda>r. if r_id r = r_id old then ?h r else r) (ratings d)\<rparr>)"
    using ex lo hi by (simp add: update_rating_def rating_column_def)
  have "submitRating now (Token usr) sid (Some x) d =
          (Response 200 (RatingJson (Some
              \<lparr>v_id = r_id old, v_user_id = i_id usr, v_store_id = sid, v_rating = x\<rparr>)),
           d\<lparr>ratings := map (\<lambda>r. if r_id r = r_id old then ?h r else r) (ratings d)\<rparr>)"
    using lo hi by (simp add: submitRating_def js_lt_def js_gt_def sel upd view)
  then show ?thesis
    by (simp only: maps)
qed

lemma ratings_of_cases:
  assumes "ratings_ok d"
  shows "ratings_of d uid sid = [] \<or> (\<exists>old. ratings_of d uid sid = [old])"
proof -
  from assms have "distinct (map (\<lambda>r. (r_user_id r, r_store_id r)) (ratings d))"
    by (simp add: ratings_ok_def)
  from distinct_key_filter[OF this, of "(uid, sid)"]
  have "length (ratings_of d uid sid) \<le> 1"
    by (simp add: ratings_of_def)
  then show ?thesis
    by (cases "ratings_of d uid sid") (auto simp: length_Suc_conv)
qed

text \<open>The table constraints hold at the start and after every call.\<close>

lemma fresh_db_ok: "ratings_ok fresh_db"
  by (simp add: ratings_ok_def fresh_db_def)

lemma once_db_ok: "ratings_ok once_db"
  by (simp add: ratings_ok_def once_db_def fresh_db_def)

lemma insert_rating_ok:
  "insert_rating now uid sid v d = Inr (rid, d') \<Longrightarrow> ratings_ok d \<Longrightarrow> ratings_ok d'"
  by (fastforce simp: insert_rating_def ratings_ok_def list_ex_iff list_all_iff Let_def
       split: sum.splits if_splits)

lemma update_rating_ok:
  assumes upd: "update_rating now v rid d = Inr d'" and ok: "ratings_ok d"
  shows "ratings_ok d'"
proof -
  note keys = update_rating_keys[OF upd]
  from update_rating_ids[OF upd]
  have ids: "map r_id (ratings d') = map r_id (ratings d)"
    and seq: "ratings_seq d' = ratings_seq d"
    by simp_all
  from ids have "r_id ` set (ratings d') = r_id ` set (ratings d)"
    by (simp flip: set_map)
  then have "(\<forall>i \<in> r_id ` set (ratings d'). i \<le> ratings_seq d) =
             (\<forall>i \<in> r_id ` set (ratings d). i \<le> ratings_seq d)"
    by simp
  then have "(\<forall>r \<in> set (ratings d'). r_id r \<le> ratings_seq d) =
             (\<forall>r \<in> set (ratings d). r_id r \<le> ratings_seq d)"
    by (simp only: ball_simps)
  with ok keys ids seq show ?thesis
    by (simp add: ratings_ok_def list_all_iff)
qed

lemma submitRating_ok:
  "ratings_ok d \<Longrightarrow> ratings_ok (snd (submitRating now cred sid v d))"
  by (auto simp: submitRating_def dest: insert_rating_ok update_rating_ok
           split: sum.splits option.splits)

text \<open>
  Claim C2. In a state that satisfies the table constraints, a call with a value in
  range (1 to 5) by an authenticated user does exactly one of two things. When the pair
  has no row, it appends one row with \<open>created_at = updated_at = now\<close> and answers 201
  with that row. When the pair has a row \<open>old\<close>, it answers 200 with the row's id and
  the new value, and the table differs only in that the row of the pair carries the
  submitted value and \<open>updated_at = now\<close>: \<open>created_at\<close> and every other row are as
  before. Nothing is assumed about the stored value, so resubmitting the same value
  writes as well. The two cases are the only ones.
\<close>

theorem submitRating_upsert:
  "ratings_ok d \<Longrightarrow> 1 \<le> x \<Longrightarrow> x \<le> 5 \<Longrightarrow>
     (ratings_of d (i_id usr) sid = [] \<longrightarrow>
        submitRating now (Token usr) sid (Some x) d =
          (Response 201 (RatingJson (Some
             \<lparr>v_id = ratings_seq d + 1, v_user_id = i_id usr, v_store_id = sid, v_rating = x\<rparr>)),
           d\<lparr>ratings := ratings d @
                [\<lparr>r_id = ratings_seq d + 1, r_user_id = i_id usr, r_store_id = sid,
                  r_rating = x, r_created_at = now, r_updated_at = now\<rparr>],
             ratings_seq := ratings_seq d + 1\<rparr>)) \<and>
     (\<forall>old. ratings_of d (i_id usr) sid = [old] \<longrightarrow>
        submitRating now (Token usr) sid (Some x) d =
          (Response 200 (RatingJson (Some
             \<lparr>v_id = r_id old, v_user_id = i_id usr, v_store_id = sid, v_rating = x\<rparr>)),
           d\<lparr>ratings :=
                map (\<lambda>r. if r_user_id r = i_id usr \<and> r_store_id r = sid
                         then r\<lparr>r_rating := x, r_updated_at := now\<rparr> else r)
                  (ratings d)\<rparr>)) \<and>
     (ratings_of d (i_id usr) sid = [] \<or> (\<exists>old. ratings_of d (i_id usr) sid = [old]))"
  using submitRating_created[of d x usr sid now] submitRating_updated[of d x usr sid _ now]
    ratings_of_cases[of d "i_id usr" sid]
  by blast

theorem submitRating_upsert_witness:
  "ratings_ok fresh_db \<and> ratings_ok once_db \<and>
   submitRating 10 (Token alice) 1 (Some 4) fresh_db =
     (Response 201 (RatingJson (Some
        \<lparr>v_id = 1, v_user_id = 2, v_store_id = 1, v_rating = 4\<rparr>)), once_db) \<and>
   submitRating 20 (Token alice) 1 (Some 4) once_db =
     (Response 200 (RatingJson (Some
        \<lparr>v_id = 1, v_user_id = 2, v_store_id = 1, v_rating = 4\<rparr>)),
      once_db\<lparr>ratings :=
                [\<lparr>r_id = 1, r_user_id = 2, r_store_id = 1, r_rating = 4,
                  r_created_at = 10, r_updated_at = 20\<rparr>]\<rparr>)"
proof -
  have r4: "(1::rat) \<le> 4" "(4::rat) \<le> 5"
    by simp_all
  have "ratings_of fresh_db (i_id alice) 1 = []"
    by (simp add: ratings_of_def fresh_db_def)
  with submitRating_upsert[OF fresh_db_ok r4, of alice 1 10]
  have first: "submitRating 10 (Token alice) 1 (Some 4) fresh_db =
     (Response 201 (RatingJson (Some
        \<lparr>v_id = 1, v_user_id = 2, v_store_id = 1, v_rating = 4\<rparr>)), once_db)"
    by (simp add: fresh_db_def once_db_def alice_def)
  have "ratings_of once_db (i_id alice) 1 =
          [\<lparr>r_id = 1, r_user_id = 2, r_store_id = 1, r_rating = 4,
            r_created_at = 10, r_updated_at = 10\<rparr>]"
    by (simp add: ratings_of_def once_db_def fresh_db_def alice_def)
  with submitRating_upsert[OF once_db_ok r4, of alice 1 20]
  have second: "submitRating 20 (Token alice) 1 (Some 4) once_db =
     (Response 200 (RatingJson (Some
        \<lparr>v_id = 1, v_user_id = 2, v_store_id = 1, v_rating = 4\<rparr>)),
      once_db\<lparr>ratings :=
                [\<lparr>r_id = 1, r_user_id = 2, r_store_id = 1, r_rating = 4,
                  r_created_at = 10, r_updated_at = 20\<rparr>]\<rparr>)"
    by (simp add: once_db_def fresh_db_def alice_def)
  from first second fresh_db_ok once_db_ok show ?thesis
    by blast
qed

subsection \<open>The range guard\<close>

lemma submitRating_out_of_range:
  "x < 1 \<or> 5 < x \<Longrightarrow>
     submitRating now (Token usr) sid (Some x) d =
       (Response 400 (Message ''Rating must be between 1 and 5''), d)"
  by (auto simp: submitRating_def js_lt_def js_gt_def)

lemma submitRating_refused_unchanged:
  "status_of (fst (submitRating now cred sid v d)) \<noteq> 200 \<Longrightarrow>
   status_of (fst (submitRating now cred sid v d)) \<noteq> 201 \<Longrightarrow>
     snd (submitRating now cred sid v d) = d"
  by (cases cred)
     (auto simp: submitRating_def server_error_def split: option.splits sum.splits if_splits)

lemma submitRating_missing_value:
  "submitRating now (Token usr) sid None d = (server_error, d)"
proof (cases "select_rating_id d (i_id usr) sid")
  case None
  then show ?thesis
    by (simp add: submitRating_def js_lt_def js_gt_def insert_rating_def rating_column_def)
next
  case (Some rid)
  from select_rating_id_Some[OF this] have "list_ex (\<lambda>r. r_id r = rid) (ratings d)"
    by (auto simp: list_ex_iff)
  with Some show ?thesis
    by (simp add: submitRating_def js_lt_def js_gt_def update_rating_def rating_column_def)
qed

text \<open>
  Claim C3. The claim wants every value that is not a whole number from 1 to 5 refused
  with the validation error and no change of state. The guard of the route compares
  with 1 and with 5 only (lemma \<open>submitRating_out_of_range\<close> is the part of the claim
  that holds). The value 3.5 passes it: on the fresh database the call of user 2 for
  store 1 answers 201 and stores a row with rating 7/2.
\<close>

theorem submitRating_fractional_accepted:
  "submitRating 10 (Token alice) 1 (Some (7 / 2)) fresh_db =
     (Response 201 (RatingJson (Some
        \<lparr>v_id = 1, v_user_id = 2, v_store_id = 1, v_rating = 7 / 2\<rparr>)),
      fresh_db\<lparr>ratings :=
                 [\<lparr>r_id = 1, r_user_id = 2, r_store_id = 1, r_rating = 7 / 2,
                   r_created_at = 10, r_updated_at = 10\<rparr>],
               ratings_seq := 1\<rparr>)"
  by (simp add: submitRating_def js_lt_def js_gt_def select_rating_id_def insert_rating_def
        rating_column_def select_rating_view_def fresh_db_def alice_def Let_def)

subsection \<open>Authentication is the only gate\<close>

lemma submitRating_valid_status:
  assumes lo: "1 \<le> x" and hi: "x \<le> 5"
  shows "status_of (fst (submitRating now (Token usr) sid (Some x) d)) =
           (if ratings_of d (i_id usr) sid = [] then 201 else 200)"
proof (cases "select_rating_id d (i_id usr) sid")
  case None
  then have nex: "\<not> list_ex (\<lambda>r. r_user_id r = i_id usr \<and> r_store_id r = sid) (ratings d)"
    by (simp add: select_rating_id_None)
  then have "ratings_of d (i_id usr) sid = []"
    by (simp add: ratings_of_def filter_empty_conv list_ex_iff)
  then show ?thesis
    using None nex lo hi
    by (simp add: submitRating_def js_lt_def js_gt_def insert_rating_def rating_column_def Let_def)
next
  case (Some rid)
  from select_rating_id_Some[OF this] obtain r
    where r: "r \<in> set (ratings d)" "r_id r = rid" "r_user_id r = i_id usr" "r_store_id r = sid"
    by blast
  then have "r \<in> set (ratings_of d (i_id usr) sid)"
    by (simp add: ratings_of_def)
  then have ne: "ratings_of d (i_id usr) sid \<noteq> []"
    by auto
  from r have "list_ex (\<lambda>r. r_id r = rid) (ratings d)"
    by (auto simp: list_ex_iff)
  then show ?thesis
    using Some ne lo hi
    by (simp add: submitRating_def js_lt_def js_gt_def update_rating_def rating_column_def)
qed

lemma submitRating_valid_stored:
  assumes lo: "1 \<le> x" and hi: "x \<le> 5"
  shows "\<exists>r \<in> set (ratings (snd (submitRating now (Token usr) sid (Some x) d))).
           r_user_id r = i_id usr \<and> r_store_id r = sid \<and> r_rating r = x"
proof (cases "select_rating_id d (i_id usr) sid")
  case None
  then have nex: "\<not> list_ex (\<lambda>r. r_user_id r = i_id usr \<and> r_store_id r = sid) (ratings d)"
    by (simp add: select_rating_id_None)
  then show ?thesis
    using None lo hi
    by (simp add: submitRating_def js_lt_def js_gt_def insert_rating_def rating_column_def Let_def)
next
  case (Some rid)
  from select_rating_id_Some[OF this] obtain r
    where r: "r \<in> set (ratings d)" "r_id r = rid" "r_user_id r = i_id usr" "r_store_id r = sid"
    by blast
  then have ex: "list_ex (\<lambda>r. r_id r = rid) (ratings d)"
    by (auto simp: list_ex_iff)
  let ?h = "\<lambda>r. r\<lparr>r_rating := x, r_updated_at := now\<rparr>"
  from r have "?h r \<in> set (map (\<lambda>r. if r_id r = rid then ?h r else r) (ratings d))"
    by (auto simp: image_iff intro!: bexI[of _ r])
  then have "\<exists>r' \<in> set (map (\<lambda>r. if r_id r = rid then ?h r else r) (ratings d)).
               r_user_id r' = i_id usr \<and> r_store_id r' = sid \<and> r_rating r' = x"
    using r by (intro bexI[of _ "?h r"]) simp_all
  then show ?thesis
    using Some ex lo hi
    by (simp add: submitRating_def js_lt_def js_gt_def update_rating_def rating_column_def)
qed

lemma submitRating_status_cases:
  "status_of (fst (submitRating now cred sid v d)) \<in> {200, 201, 400, 401, 500}"
  by (cases cred)
     (auto simp: submitRating_def server_error_def split: option.splits sum.splits)

text \<open>
  Claim C10. The rating route looks at the credential and at nothing else: no role is
  required and the \<open>stores\<close> table is never read. For every identity \<open>usr\<close> (of any
  role, the owner of the rated store included), every \<open>sid\<close> (whether a store with that
  id exists or not) and every state, a call with a value from 1 to 5 answers 201 when
  the pair had no row and 200 when it had one, and afterwards a row of the pair holds
  the value. For every call whatsoever the status is neither 403 nor 404.
\<close>

theorem submitRating_authentication_only:
  "(1 \<le> x \<and> x \<le> 5 \<longrightarrow>
      status_of (fst (submitRating now (Token usr) sid (Some x) d)) =
        (if ratings_of d (i_id usr) sid = [] then 201 else 200) \<and>
      (\<exists>r \<in> set (ratings (snd (submitRating now (Token usr) sid (Some x) d))).
         r_user_id r = i_id usr \<and> r_store_id r = sid \<and> r_rating r = x)) \<and>
   status_of (fst (submitRating now cred sid v d)) \<noteq> 403 \<and>
   status_of (fst (submitRating now cred sid v d)) \<noteq> 404"
proof -
  have "status_of (fst (submitRating now cred sid v d)) \<in> {200, 201, 400, 401, 500}"
    by (rule submitRating_status_cases)
  then have "status_of (fst (submitRating now cred sid v d)) \<noteq> 403 \<and>
             status_of (fst (submitRating now cred sid v d)) \<noteq> 404"
    by auto
  then show ?thesis
    using submitRating_valid_status[of x now usr sid d]
      submitRating_valid_stored[of x now usr sid d]
    by blast
qed

text \<open>
  The owner Olga rates store 1, which is her own, and store 99, which does not exist;
  the admin rates store 99 as well.
\<close>

theorem submitRating_authentication_only_witness:
  "status_of (fst (submitRating 30 (Token olga) 1 (Some 3) rated_db)) = 201 \<and>
   status_of (fst (submitRating 30 (Token olga) 99 (Some 3) rated_db)) = 201 \<and>
   status_of (fst (submitRating 30 (Token root_admin) 1 (Some 3) rated_db)) = 200 \<and>
   status_of (fst (submitRating 30 (Token root_admin) 99 (Some 3) rated_db)) = 201"
proof -
  have r3: "(1::rat) \<le> 3 \<and> (3::rat) \<le> 5"
    by simp
  have "ratings_of rated_db (i_id olga) 1 = []" "ratings_of rated_db (i_id olga) 99 = []"
    "ratings_of rated_db (i_id root_admin) 1 \<noteq> []" "ratings_of rated_db (i_id root_admin) 99 = []"
    by (simp_all add: ratings_of_def rated_db_def fresh_db_def olga_def root_admin_def)
  then show ?thesis
    using r3
      submitRating_authentication_only[of 3 30 olga 1 rated_db NoToken None]
      submitRating_authentication_only[of 3 30 olga 99 rated_db NoToken None]
      submitRating_authentication_only[of 3 30 root_admin 1 rated_db NoToken None]
      submitRating_authentication_only[of 3 30 root_admin 99 rated_db NoToken None]
    by simp
qed

section \<open>Properties of the owner-request workflow\<close>

lemma select_request_updated:
  assumes "select_request d qid = Some request"
  shows "find (\<lambda>q. q_id q = qid)
           (map (\<lambda>q. if q_id q = qid then q\<lparr>q_status := st, q_updated_at := now\<rparr> else q)
              (owner_requests d)) =
         Some (request\<lparr>q_status := st, q_updated_at := now\<rparr>)"
  using assms unfolding select_request_def
  by (intro find_map_upd) auto

lemma approve_pending:
  assumes adm: "i_role adm = Admin"
    and req: "select_request d qid = Some request"
    and pen: "q_status request = Pending"
  shows "approveOwnerRequest now (Token adm) qid d =
           (Response 200 (RequestJson ''Owner request approved''
              (Some (request\<lparr>q_status := Approved, q_updated_at := now\<rparr>))),
            d\<lparr>users :=
                 map (\<lambda>u. if u_id u = q_user_id request then u\<lparr>u_role := Owner\<rparr> else u) (users d),
              owner_requests :=
                 map (\<lambda>q. if q_id q = qid then q\<lparr>q_status := Approved, q_updated_at := now\<rparr> else q)
                   (owner_requests d)\<rparr>)"
  using adm req pen select_request_updated[OF req, where st = Approved and now = now]
  by (simp add: approveOwnerRequest_def requireRole_def update_role_owner_def
        update_request_approved_def select_request_def)

lemma find_map_untouched:
  "(\<And>x. Q x \<Longrightarrow> \<not> P x) \<Longrightarrow> (\<And>x. P (h x) = P x) \<Longrightarrow>
     find P (map (\<lambda>x. if Q x then h x else x) xs) = find P xs"
  by (induction xs) auto

lemma find_append_first:
  "find P xs = Some y \<Longrightarrow> find P (xs @ ys) = Some y"
  by (induction xs) (auto split: if_splits)

text \<open>A request that has been decided stays as it is, whatever runs afterwards.\<close>

lemma decided_approve:
  "decided d qid q \<Longrightarrow> decided (snd (approveOwnerRequest now cred qid' d)) qid q"
proof (cases "qid' = qid")
  case True
  assume "decided d qid q"
  with True show ?thesis
    by (cases cred)
       (auto simp: decided_def approveOwnerRequest_def split: option.splits)
next
  case False
  assume dec: "decided d qid q"
  have "find (\<lambda>q. q_id q = qid)
          (map (\<lambda>q. if q_id q = qid' then q\<lparr>q_status := Approved, q_updated_at := now\<rparr> else q)
             (owner_requests d)) = find (\<lambda>q. q_id q = qid) (owner_requests d)"
    using False by (intro find_map_untouched) auto
  with dec show ?thesis
    by (cases cred)
       (auto simp: decided_def approveOwnerRequest_def select_request_def Let_def
          update_role_owner_def update_request_approved_def split: option.splits)
qed


lemma decided_reject:
  "decided d qid q \<Longrightarrow> decided (snd (rejectOwnerRequest now cred qid' reason d)) qid q"
proof (cases "qid' = qid")
  case True
  assume "decided d qid q"
  with True show ?thesis
    by (cases cred)
       (auto simp: decided_def rejectOwnerRequest_def split: option.splits)
next
  case False
  assume dec: "decided d qid q"
  have "find (\<lambda>q. q_id q = qid)
          (map (\<lambda>q. if q_id q = qid'
                    then q\<lparr>q_status := Rejected, q_reason := Some (reason_or_default reason),
                           q_updated_at := now\<rparr>
                    else q)
             (owner_requests d)) = find (\<lambda>q. q_id q = qid) (owner_requests d)"
    using False by (intro find_map_untouched) auto
  with dec show ?thesis
    by (cases cred)
       (auto simp: decided_def rejectOwnerRequest_def select_request_def Let_def
          update_request_rejected_def split: option.splits)
qed

lemma decided_request:
  "decided d qid q \<Longrightarrow> decided (snd (requestOwner now cred d)) qid q"
  by (cases cred)
     (auto simp: decided_def requestOwner_def select_request_def insert_owner_request_def
        Let_def find_append_first split: option.splits sum.splits if_splits)

lemma submitRating_requests:
  "owner_requests (snd (submitRating now cred sid v d)) = owner_requests d"
  by (cases cred)
     (auto simp: submitRating_def update_rating_def insert_rating_def Let_def
        split: option.splits sum.splits if_splits)

lemma decided_rate:
  "decided d qid q \<Longrightarrow> decided (snd (submitRating now cred sid v d)) qid q"
  by (simp add: decided_def select_request_def submitRating_requests)

lemma decided_perform:
  "decided d qid q \<Longrightarrow> decided (snd (perform x d)) qid q"
  by (cases x) (simp_all add: decided_rate decided_request decided_approve decided_reject)

lemma decided_perform_all:
  "decided d qid q \<Longrightarrow> decided (perform_all xs d) qid q"
  by (induction xs arbitrary: d) (simp_all add: decided_perform)

lemma decided_approve_refused:
  "decided d qid q \<Longrightarrow> i_role adm = Admin \<Longrightarrow>
     approveOwnerRequest now (Token adm) qid d =
       (Response 400 (Message ''Request is not pending''), d)"
  by (simp add: decided_def approveOwnerRequest_def requireRole_def)

lemma decided_reject_refused:
  "decided d qid q \<Longrightarrow> i_role adm = Admin \<Longrightarrow>
     rejectOwnerRequest now (Token adm) qid reason d =
       (Response 400 (Message ''Request is not pending''), d)"
  by (simp add: decided_def rejectOwnerRequest_def requireRole_def)

text \<open>
  Claim C4. Let an admin approve a request that the lookup by id finds pending. The
  answer is 200 with the request as approved; in the new state every user row with the
  requester's id has the role owner (the other rows and tables are as before) and the
  request has the status approved. From then on, after any run of further operations
  (ratings, owner requests, approvals and rejections, by anyone), an admin's approve or
  reject of that request answers 400 "Request is not pending" and leaves the state as it
  found it.
\<close>

theorem approve_is_terminal:
  "i_role adm = Admin \<Longrightarrow> select_request d qid = Some request \<Longrightarrow>
   q_status request = Pending \<Longrightarrow>
     approveOwnerRequest now (Token adm) qid d =
       (Response 200 (RequestJson ''Owner request approved''
          (Some (request\<lparr>q_status := Approved, q_updated_at := now\<rparr>))),
        d\<lparr>users :=
             map (\<lambda>u. if u_id u = q_user_id request then u\<lparr>u_role := Owner\<rparr> else u) (users d),
          owner_requests :=
             map (\<lambda>q. if q_id q = qid then q\<lparr>q_status := Approved, q_updated_at := now\<rparr> else q)
               (owner_requests d)\<rparr>) \<and>
     (\<forall>u \<in> set (users (snd (approveOwnerRequest now (Token adm) qid d))).
        u_id u = q_user_id request \<longrightarrow> u_role u = Owner) \<and>
     (\<forall>xs now' adm' reason.
        i_role adm' = Admin \<longrightarrow>
          approveOwnerRequest now' (Token adm') qid
            (perform_all xs (snd (approveOwnerRequest now (Token adm) qid d))) =
          (Response 400 (Message ''Request is not pending''),
           perform_all xs (snd (approveOwnerRequest now (Token adm) qid d))) \<and>
          rejectOwnerRequest now' (Token adm') qid reason
            (perform_all xs (snd (approveOwnerRequest now (Token adm) qid d))) =
          (Response 400 (Message ''Request is not pending''),
           perform_all xs (snd (approveOwnerRequest now (Token adm) qid d))))"
proof -
  assume adm: "i_role adm = Admin" and req: "select_request d qid = Some request"
    and pen: "q_status request = Pending"
  let ?d' = "snd (approveOwnerRequest now (Token adm) qid d)"
  note run = approve_pending[OF adm req pen, of now]
  have roles: "\<forall>u \<in> set (users ?d'). u_id u = q_user_id request \<longrightarrow> u_role u = Owner"
    by (auto simp: run)
  have "select_request ?d' qid = Some (request\<lparr>q_status := Approved, q_updated_at := now\<rparr>)"
    using select_request_updated[OF req, where st = Approved and now = now]
    by (simp add: run select_request_def)
  then have "decided ?d' qid (request\<lparr>q_status := Approved, q_updated_at := now\<rparr>)"
    by (simp add: decided_def)
  then have later: "decided (perform_all xs ?d') qid
                      (request\<lparr>q_status := Approved, q_updated_at := now\<rparr>)" for xs
    by (rule decided_perform_all)
  show ?thesis
    using run roles decided_approve_refused[OF later] decided_reject_refused[OF later]
    by blast
qed

text \<open>
  On \<open>asked_db\<close> the admin approves request 1 of user 2 at time 9; user 2 then asks
  again and rates a store, and the admin tries to reject and to approve once more.
\<close>

theorem approve_is_terminal_witness:
  "u_role (users (snd (approveOwnerRequest 9 (Token root_admin) 1 asked_db)) ! 1) = Owner \<and>
   map q_status (owner_requests (snd (approveOwnerRequest 9 (Token root_admin) 1 asked_db))) =
     [Approved] \<and>
   fst (rejectOwnerRequest 12 (Token root_admin) 1 (Some ''late'')
          (perform_all [AskOwner 10 (Token alice), Rate 11 (Token alice) 1 (Some 5)]
             (snd (approveOwnerRequest 9 (Token root_admin) 1 asked_db)))) =
     Response 400 (Message ''Request is not pending'') \<and>
   fst (approveOwnerRequest 12 (Token root_admin) 1
          (perform_all [AskOwner 10 (Token alice), Rate 11 (Token alice) 1 (Some 5)]
             (snd (approveOwnerRequest 9 (Token root_admin) 1 asked_db)))) =
     Response 400 (Message ''Request is not pending'')"
proof -
  let ?request = "\<lparr>q_id = 1, q_user_id = 2, q_status = Pending, q_reason = None,
                    q_created_at = 5, q_updated_at = 5\<rparr>"
  have adm: "i_role root_admin = Admin"
    by (simp add: root_admin_def)
  have req: "select_request asked_db 1 = Some ?request"
    by (simp add: select_request_def asked_db_def fresh_db_def)
  have pen: "q_status ?request = Pending"
    by simp
  note inst = approve_is_terminal[OF adm req pen, of 9]
  from inst have state: "snd (approveOwnerRequest 9 (Token root_admin) 1 asked_db) =
      asked_db\<lparr>users :=
             map (\<lambda>u. if u_id u = 2 then u\<lparr>u_role := Owner\<rparr> else u) (users asked_db),
          owner_requests :=
             map (\<lambda>q. if q_id q = 1 then q\<lparr>q_status := Approved, q_updated_at := 9\<rparr> else q)
               (owner_requests asked_db)\<rparr>"
    by simp
  have one: "u_role (users (snd (approveOwnerRequest 9 (Token root_admin) 1 asked_db)) ! 1) = Owner"
    unfolding state by (simp add: asked_db_def fresh_db_def)
  have two: "map q_status (owner_requests (snd (approveOwnerRequest 9 (Token root_admin) 1 asked_db))) =
     [Approved]"
    unfolding state by (simp add: asked_db_def fresh_db_def)
  from inst adm have later: "approveOwnerRequest 12 (Token root_admin) 1
            (perform_all xs (snd (approveOwnerRequest 9 (Token root_admin) 1 asked_db))) =
          (Response 400 (Message ''Request is not pending''),
           perform_all xs (snd (approveOwnerRequest 9 (Token root_admin) 1 asked_db))) \<and>
          rejectOwnerRequest 12 (Token root_admin) 1 reason
            (perform_all xs (snd (approveOwnerRequest 9 (Token root_admin) 1 asked_db))) =
          (Response 400 (Message ''Request is not pending''),
           perform_all xs (snd (approveOwnerRequest 9 (Token root_admin) 1 asked_db)))"
    for xs reason
    by blast
  from one two later[of "[AskOwner 10 (Token alice), Rate 11 (Token alice) 1 (Some 5)]" "Some ''late''"]
  show ?thesis
    by simp
qed

subsection \<open>Asking to become an owner\<close>

lemma requestOwner_first:
  assumes nor: "i_role usr = Normal" and none: "requests_of d (i_id usr) = []"
    and ok: "requests_ok d"
  shows "requestOwner now (Token usr) d =
           (Response 201 (RequestJson ''Owner request submitted''
              (Some \<lparr>q_id = owner_requests_seq d + 1, q_user_id = i_id usr, q_status = Pending,
                     q_reason = None, q_created_at = now, q_updated_at = now\<rparr>)),
            d\<lparr>owner_requests := owner_requests d @
                 [\<lparr>q_id = owner_requests_seq d + 1, q_user_id = i_id usr, q_status = Pending,
                   q_reason = None, q_created_at = now, q_updated_at = now\<rparr>],
              owner_requests_seq := owner_requests_seq d + 1\<rparr>)"
proof -
  let ?new = "\<lparr>q_id = owner_requests_seq d + 1, q_user_id = i_id usr, q_status = Pending,
                 q_reason = None, q_created_at = now, q_updated_at = now\<rparr>"
  from none have nex: "\<not> list_ex (\<lambda>q. q_user_id q = i_id usr) (owner_requests d)"
    by (simp add: requests_of_def filter_empty_conv list_ex_iff)
  then have act: "select_active_request d (i_id usr) = None"
    by (auto simp: select_active_request_def find_None_iff list_ex_iff)
  from ok have "\<forall>q \<in> set (owner_requests d). \<not> q_id q = owner_requests_seq d + 1"
    by (auto simp: requests_ok_def list_all_iff)
  then have "find (\<lambda>q. q_id q = owner_requests_seq d + 1) (owner_requests d @ [?new]) = Some ?new"
    by (rule find_append_last) simp
  then show ?thesis
    using nor nex act
    by (simp add: requestOwner_def requireRole_def insert_owner_request_def
          select_request_def Let_def)
qed

lemma requestOwner_while_active:
  assumes nor: "i_role usr = Normal"
    and act: "list_ex (\<lambda>q. q_user_id q = i_id usr \<and> (q_status q = Pending \<or> q_status q = Approved))
                (owner_requests d)"
  shows "requestOwner now (Token usr) d =
           (Response 400 (Message ''You already have a pending or approved owner request''), d)"
proof -
  from act obtain q where "select_active_request d (i_id usr) = Some q"
    by (cases "select_active_request d (i_id usr)")
       (auto simp: select_active_request_def find_None_iff list_ex_iff)
  with nor show ?thesis
    by (simp add: requestOwner_def requireRole_def)
qed

text \<open>
  Claim C5. A caller with the role normal whose id has no row in \<open>owner_requests\<close>
  asks: the answer is 201 and the table gains one pending request of that user, with no
  reason. The same caller asks again, at any time: the answer is 400 "You already have a
  pending or approved owner request" and the state, the stored request included, is what
  the first call left.
\<close>

theorem requestOwner_once:
  "i_role usr = Normal \<Longrightarrow> requests_of d (i_id usr) = [] \<Longrightarrow> requests_ok d \<Longrightarrow>
     requestOwner now (Token usr) d =
       (Response 201 (RequestJson ''Owner request submitted''
          (Some \<lparr>q_id = owner_requests_seq d + 1, q_user_id = i_id usr, q_status = Pending,
                 q_reason = None, q_created_at = now, q_updated_at = now\<rparr>)),
        d\<lparr>owner_requests := owner_requests d @
             [\<lparr>q_id = owner_requests_seq d + 1, q_user_id = i_id usr, q_status = Pending,
               q_reason = None, q_created_at = now, q_updated_at = now\<rparr>],
          owner_requests_seq := owner_requests_seq d + 1\<rparr>) \<and>
     requestOwner now' (Token usr) (snd (requestOwner now (Token usr) d)) =
       (Response 400 (Message ''You already have a pending or approved owner request''),
        snd (requestOwner now (Token usr) d)) \<and>
     requests_of (snd (requestOwner now (Token usr) d)) (i_id usr) =
       [\<lparr>q_id = owner_requests_seq d + 1, q_user_id = i_id usr, q_status = Pending,
         q_reason = None, q_created_at = now, q_updated_at = now\<rparr>]"
proof -
  assume nor: "i_role usr = Normal" and none: "requests_of d (i_id usr) = []"
    and ok: "requests_ok d"
  note first = requestOwner_first[OF nor none ok, of now]
  have act: "list_ex (\<lambda>q. q_user_id q = i_id usr \<and> (q_status q = Pending \<or> q_status q = Approved))
               (owner_requests (snd (requestOwner now (Token usr) d)))"
    by (simp add: first)
  have rows: "requests_of (snd (requestOwner now (Token usr) d)) (i_id usr) =
       [\<lparr>q_id = owner_requests_seq d + 1, q_user_id = i_id usr, q_status = Pending,
         q_reason = None, q_created_at = now, q_updated_at = now\<rparr>]"
    using none by (simp add: first requests_of_def)
  from first requestOwner_while_active[OF nor act, of now'] rows show ?thesis
    by blast
qed

theorem requestOwner_once_witness:
  "requestOwner 5 (Token alice) fresh_db =
     (Response 201 (RequestJson ''Owner request submitted''
        (Some \<lparr>q_id = 1, q_user_id = 2, q_status = Pending, q_reason = None,
               q_created_at = 5, q_updated_at = 5\<rparr>)),
      fresh_db\<lparr>owner_requests :=
                 [\<lparr>q_id = 1, q_user_id = 2, q_status = Pending, q_reason = None,
                   q_created_at = 5, q_updated_at = 5\<rparr>],
               owner_requests_seq := 1\<rparr>) \<and>
   fst (requestOwner 6 (Token alice) (snd (requestOwner 5 (Token alice) fresh_db))) =
     Response 400 (Message ''You already have a pending or approved owner request'')"
proof -
  have nor: "i_role alice = Normal"
    by (simp add: alice_def)
  have none: "requests_of fresh_db (i_id alice) = []"
    by (simp add: requests_of_def fresh_db_def)
  have ok: "requests_ok fresh_db"
    by (simp add: requests_ok_def fresh_db_def)
  note inst = requestOwner_once[OF nor none ok, of 5 6]
  from inst have
    "requestOwner 6 (Token alice) (snd (requestOwner 5 (Token alice) fresh_db)) =
       (Response 400 (Message ''You already have a pending or approved owner request''),
        snd (requestOwner 5 (Token alice) fresh_db))"
    by blast
  then have again:
    "fst (requestOwner 6 (Token alice) (snd (requestOwner 5 (Token alice) fresh_db))) =
       Response 400 (Message ''You already have a pending or approved owner request'')"
    by (simp only: fst_conv)
  from inst have "requestOwner 5 (Token alice) fresh_db =
       (Response 201 (RequestJson ''Owner request submitted''
          (Some \<lparr>q_id = owner_requests_seq fresh_db + 1, q_user_id = i_id alice,
                 q_status = Pending, q_reason = None, q_created_at = 5, q_updated_at = 5\<rparr>)),
        fresh_db\<lparr>owner_requests := owner_requests fresh_db @
             [\<lparr>q_id = owner_requests_seq fresh_db + 1, q_user_id = i_id alice,
               q_status = Pending, q_reason = None, q_created_at = 5, q_updated_at = 5\<rparr>],
          owner_requests_seq := owner_requests_seq fresh_db + 1\<rparr>)"
    by blast
  then have "requestOwner 5 (Token alice) fresh_db =
     (Response 201 (RequestJson ''Owner request submitted''
        (Some \<lparr>q_id = 1, q_user_id = 2, q_status = Pending, q_reason = None,
               q_created_at = 5, q_updated_at = 5\<rparr>)),
      fresh_db\<lparr>owner_requests :=
                 [\<lparr>q_id = 1, q_user_id = 2, q_status = Pending, q_reason = None,
                   q_created_at = 5, q_updated_at = 5\<rparr>],
               owner_requests_seq := 1\<rparr>)"
    by (simp add: alice_def fresh_db_def)
  with again show ?thesis
    by blast
qed

lemma requestOwner_after_rejection:
  assumes nor: "i_role usr = Normal"
    and rej: "requests_of d (i_id usr) = [q]" "q_status q = Rejected"
  shows "requestOwner now (Token usr) d = (Response 500 (Message ''Server error''), d)"
proof -
  have mem: "p = q" if "p \<in> set (owner_requests d)" "q_user_id p = i_id usr" for p
  proof -
    from that have "p \<in> set (requests_of d (i_id usr))"
      by (simp add: requests_of_def)
    with rej(1) show ?thesis
      by simp
  qed
  from rej(1) have "q \<in> set (requests_of d (i_id usr))"
    by simp
  then have ex: "list_ex (\<lambda>p. q_user_id p = i_id usr) (owner_requests d)"
    by (auto simp: requests_of_def list_ex_iff)
  from mem rej(2) have "select_active_request d (i_id usr) = None"
    by (auto simp: select_active_request_def find_None_iff)
  with nor ex show ?thesis
    by (simp add: requestOwner_def requireRole_def insert_owner_request_def server_error_def)
qed

text \<open>
  Claim C6. User 2 was turned down; the request of user 2 is stored as rejected. The
  lookup of the handler asks for pending and approved requests only, so it finds
  nothing; the INSERT then breaks \<open>UNIQUE (user_id)\<close>, and the \<open>catch\<close> answers 500
  "Server error". No second request is stored, but the answer is the generic server
  error and not the conflict that the claim wants (lemma \<open>requestOwner_after_rejection\<close>
  is the same for every such user).
\<close>

theorem requestOwner_rejected_server_error:
  "requestOwner 20 (Token alice) turned_down_db =
     (Response 500 (Message ''Server error''), turned_down_db)"
  by (simp add: requestOwner_def requireRole_def select_active_request_def
        insert_owner_request_def server_error_def turned_down_db_def fresh_db_def alice_def)

section \<open>Properties of the aggregates\<close>

subsection \<open>Whole numbers below \<open>2^53\<close> are doubles\<close>

text \<open>\<open>binade\<close> is the exponent: a positive \<open>x\<close> lies in \<open>[2^e, 2^(e+1))\<close> for \<open>e = binade x\<close>.\<close>

lemma binade_bounds:
  assumes "0 < x"
  shows "pow2 (binade x) \<le> x \<and> x < pow2 (binade x + 1)"
proof (cases "1 \<le> x")
  case True
  define n where "n = \<lfloor>x\<rfloor>"
  from True have n1: "1 \<le> n"
    by (simp add: n_def le_floor_iff)
  then have pos: "0 < n"
    by simp
  from n1 have b1: "1 \<le> bitlen n"
    by (simp add: bitlen_ge_iff_power)
  from bitlen_bounds[OF pos] have lo: "2 ^ nat (bitlen n - 1) \<le> n" and hi: "n + 1 \<le> 2 ^ nat (bitlen n)"
    by simp_all
  have "(of_int n :: rat) \<le> x" "x < of_int (n + 1)"
    unfolding n_def by (simp, simp, linarith)
  moreover from lo have "(2 ^ nat (bitlen n - 1) :: rat) \<le> of_int n"
    by (metis of_int_le_iff of_int_numeral of_int_power)
  moreover from hi have "(of_int (n + 1) :: rat) \<le> 2 ^ nat (bitlen n)"
    by (metis of_int_le_iff of_int_numeral of_int_power)
  ultimately have "(2 ^ nat (bitlen n - 1) :: rat) \<le> x" "x < 2 ^ nat (bitlen n)"
    by linarith+
  with True b1 show ?thesis
    by (simp add: binade_def pow2_def n_def)
next
  case False
  define y where "y = 1 / x"
  define m where "m = \<lceil>y\<rceil> - 1"
  from False assms have y1: "1 < y"
    by (simp add: y_def)
  then have m1: "1 \<le> m"
    by (simp add: m_def less_ceiling_iff)
  then have pos: "0 < m"
    by simp
  from m1 have b1: "1 \<le> bitlen m"
    by (simp add: bitlen_ge_iff_power)
  from bitlen_bounds[OF pos] have lo: "2 ^ nat (bitlen m - 1) \<le> m" and hi: "m + 1 \<le> 2 ^ nat (bitlen m)"
    by simp_all
  have "of_int m < y" "y \<le> of_int (m + 1)"
    unfolding m_def by (simp, linarith, simp)
  moreover from lo have "(2 ^ nat (bitlen m - 1) :: rat) \<le> of_int m"
    by (metis of_int_le_iff of_int_numeral of_int_power)
  moreover from hi have "(of_int (m + 1) :: rat) \<le> 2 ^ nat (bitlen m)"
    by (metis of_int_le_iff of_int_numeral of_int_power)
  ultimately have ybounds: "(2 ^ nat (bitlen m - 1) :: rat) < y" "y \<le> 2 ^ nat (bitlen m)"
    by linarith+
  from ybounds(2) assms have low: "1 / 2 ^ nat (bitlen m) \<le> x"
    by (simp add: y_def field_simps)
  from ybounds(1) assms have high: "x < 1 / 2 ^ nat (bitlen m - 1)"
    by (simp add: y_def field_simps)
  have step: "pow2 (- bitlen m + 1) = 1 / 2 ^ nat (bitlen m - 1)"
    using b1 by (cases "bitlen m = 1") (simp_all add: pow2_def)
  have "pow2 (- bitlen m) = 1 / 2 ^ nat (bitlen m)"
    using b1 by (simp add: pow2_def)
  with low high step False show ?thesis
    by (simp add: binade_def y_def m_def)
qed






subsection \<open>AVG over whole ratings\<close>
















subsection \<open>The two listings\<close>

text \<open>
  The rounding on familiar values: a tenth and a third as doubles, and a tie, which goes
  to the even significand.
\<close>

lemma round_double_tenth: "round_double (1 / 10) = 3602879701896397 / 36028797018963968"
  by code_simp

lemma round_double_third: "round_double (1 / 3) = 6004799503160661 / 18014398509481984"
  by code_simp

lemma round_double_tie: "round_double 9007199254740993 = 9007199254740992"
  by code_simp









section \<open>Properties of the raters lookup\<close>

lemma storeRaters_own:
  "i_role usr = Owner \<Longrightarrow>
   list_ex (\<lambda>s. s_id s = storeId \<and> s_owner_id s = Some (i_id usr)) (stores d) \<Longrightarrow>
     storeRaters (Token usr) storeId d = Response 200 (RatersJson (select_raters d storeId))"
proof -
  assume own: "i_role usr = Owner"
    and ex: "list_ex (\<lambda>s. s_id s = storeId \<and> s_owner_id s = Some (i_id usr)) (stores d)"
  from ex obtain sid where "select_owned_store d storeId (i_id usr) = Some sid"
    by (cases "select_owned_store d storeId (i_id usr)")
       (auto simp: select_owned_store_def find_None_iff list_ex_iff)
  with own show ?thesis
    by (simp add: storeRaters_def requireRole_def)
qed

text \<open>
  Claim C8. The caller has the role owner, and no store row has both the asked id and
  the caller as its owner: the store may belong to someone else, to nobody, or not exist.
  The answer is always 403 "Not your store"; the handler has no 404 and does not reach
  the list of raters.
\<close>

theorem storeRaters_forbidden:
  "i_role usr = Owner \<Longrightarrow>
   \<not> list_ex (\<lambda>s. s_id s = storeId \<and> s_owner_id s = Some (i_id usr)) (stores d) \<Longrightarrow>
     storeRaters (Token usr) storeId d = Response 403 (Message ''Not your store'')"
proof -
  assume own: "i_role usr = Owner"
    and nex: "\<not> list_ex (\<lambda>s. s_id s = storeId \<and> s_owner_id s = Some (i_id usr)) (stores d)"
  from nex have "select_owned_store d storeId (i_id usr) = None"
    by (auto simp: select_owned_store_def find_None_iff list_ex_iff)
  with own show ?thesis
    by (simp add: storeRaters_def requireRole_def)
qed

text \<open>
  Otto, an owner, asks for store 1, which is Olga's, and for store 99, which does not
  exist.
\<close>

theorem storeRaters_forbidden_witness:
  "storeRaters (Token otto) 1 rated_db = Response 403 (Message ''Not your store'') \<and>
   storeRaters (Token otto) 99 rated_db = Response 403 (Message ''Not your store'') \<and>
   list_ex (\<lambda>s. s_id s = 1) (stores rated_db) \<and>
   \<not> list_ex (\<lambda>s. s_id s = 99) (stores rated_db)"
proof -
  have own: "i_role otto = Owner"
    by (simp add: otto_def)
  have n1: "\<not> list_ex (\<lambda>s. s_id s = 1 \<and> s_owner_id s = Some (i_id otto)) (stores rated_db)"
    and n99: "\<not> list_ex (\<lambda>s. s_id s = 99 \<and> s_owner_id s = Some (i_id otto)) (stores rated_db)"
    by (simp_all add: rated_db_def fresh_db_def otto_def)
  have "list_ex (\<lambda>s. s_id s = 1) (stores rated_db)"
    "\<not> list_ex (\<lambda>s. s_id s = 99) (stores rated_db)"
    by (simp_all add: rated_db_def fresh_db_def)
  with storeRaters_forbidden[OF own n1] storeRaters_forbidden[OF own n99] show ?thesis
    by blast
qed

section \<open>Properties of two calls in flight\<close>

text \<open>The three steps, taken back to back, are the handler.\<close>

lemma submit_alone_is_handler:
  "submit_alone c d = (Finished (fst (submit_call c d)), snd (submit_call c d))"
  by (cases "c_cred c")
     (auto simp: submit_alone_def submit_call_def submitRating_def
        split: option.splits sum.splits)

lemma rating_column_valid: "1 \<le> x \<Longrightarrow> x \<le> 5 \<Longrightarrow> rating_column (Some x) = Inr x"
  by (simp add: rating_column_def)

lemma valid_callE:
  assumes "valid_call u s c"
  obtains usr x where "c_cred c = Token usr" "i_id usr = u" "c_store c = s"
    "c_rating c = Some x" "1 \<le> x" "x \<le> 5"
  using assms
  by (auto simp: valid_call_def split: credential.splits option.splits)

subsection \<open>One step keeps the invariant\<close>

lemma filter_map_upd:
  "(\<And>r. P (h r) = P r) \<Longrightarrow>
     filter P (map (\<lambda>r. if Q r then h r else r) xs) =
     map (\<lambda>r. if Q r then h r else r) (filter P xs)"
  by (induction xs) auto

lemma ratings_of_update:
  "ratings_of
     (d\<lparr>ratings :=
          map (\<lambda>r. if r_id r = rid then r\<lparr>r_rating := x, r_updated_at := now\<rparr> else r)
            (ratings d)\<rparr>) u s =
   map (\<lambda>r. if r_id r = rid then r\<lparr>r_rating := x, r_updated_at := now\<rparr> else r)
     (ratings_of d u s)"
  by (simp add: ratings_of_def filter_map_upd)

lemma found_row_is_the_row:
  assumes ok: "ratings_ok d"
    and ex: "list_ex (\<lambda>r. r_id r = rid \<and> r_user_id r = u \<and> r_store_id r = s) (ratings d)"
  obtains old where "ratings_of d u s = [old]" "r_id old = rid"
proof -
  from ex obtain r where r: "r \<in> set (ratings d)" "r_id r = rid" "r_user_id r = u"
    "r_store_id r = s"
    by (auto simp: list_ex_iff)
  then have mem: "r \<in> set (ratings_of d u s)"
    by (simp add: ratings_of_def)
  with ratings_of_cases[OF ok, of u s] obtain old where one: "ratings_of d u s = [old]"
    by auto
  with mem have "r = old"
    by simp
  with r one that show ?thesis
    by simp
qed

lemma list_ex_map_upd:
  "(\<And>r. P (h r) = P r) \<Longrightarrow>
     list_ex P (map (\<lambda>r. if Q r then h r else r) xs) = list_ex P xs"
  by (induction xs) auto

lemma phase_inv_mono:
  assumes inv: "phase_inv u s d h q"
    and rows: "\<And>rid. list_ex (\<lambda>r. r_id r = rid \<and> r_user_id r = u \<and> r_store_id r = s) (ratings d)
                 \<Longrightarrow> list_ex (\<lambda>r. r_id r = rid \<and> r_user_id r = u \<and> r_store_id r = s) (ratings d')"
    and hist: "h' \<noteq> [] \<or> (h' = h \<and> ratings_of d' u s = ratings_of d u s)"
  shows "phase_inv u s d' h' q"
proof (cases q)
  case (Looked usr e)
  with inv rows hist show ?thesis
    by (cases e) auto
qed (use inv hist in auto)

lemma step_start:
  assumes valid: "valid_call u s c" and st: "submit_step c Start d = (p', d')"
  shows "d' = d \<and> \<not> is_write Start p' \<and> phase_inv u s d h p'"
proof -
  from valid obtain usr x where c: "c_cred c = Token usr" "i_id usr = u" "c_store c = s"
    "c_rating c = Some x" "1 \<le> x" "x \<le> 5"
    by (rule valid_callE)
  with st have p': "p' = Looked usr (select_rating_id d u s)" and d': "d' = d"
    by (auto simp: js_lt_def js_gt_def)
  have "phase_inv u s d h (Looked usr (select_rating_id d u s))"
  proof (cases "select_rating_id d u s")
    case None
    then have "ratings_of d u s = []"
      by (simp add: select_rating_id_None ratings_of_def filter_empty_conv list_ex_iff)
    with None c show ?thesis
      by simp
  next
    case (Some rid)
    from select_rating_id_Some[OF this]
    have "list_ex (\<lambda>r. r_id r = rid \<and> r_user_id r = u \<and> r_store_id r = s) (ratings d)"
      by (auto simp: list_ex_iff)
    with Some c show ?thesis
      by simp
  qed
  with p' d' show ?thesis
    by simp
qed

lemma step_update:
  assumes valid: "valid_call u s c" and ok: "ratings_ok d"
    and own: "phase_inv u s d h (Looked usr (Some rid))"
    and st: "submit_step c (Looked usr (Some rid)) d = (p', d')"
  shows "is_write (Looked usr (Some rid)) p' \<and> ratings_ok d' \<and>
         latest_written u s d' (c_rating c # h) \<and>
         (\<forall>q. phase_inv u s d h q \<longrightarrow> phase_inv u s d' (c_rating c # h) q)"
proof -
  from valid obtain usr' x where c: "c_rating c = Some x" "1 \<le> x" "x \<le> 5"
    by (rule valid_callE)
  let ?f = "\<lambda>r. if r_id r = rid then r\<lparr>r_rating := x, r_updated_at := c_now c\<rparr> else r"
  from own have ex: "list_ex (\<lambda>r. r_id r = rid \<and> r_user_id r = u \<and> r_store_id r = s) (ratings d)"
    by simp
  then have ex_id: "list_ex (\<lambda>r. r_id r = rid) (ratings d)"
    by (auto simp: list_ex_iff)
  with c have upd: "update_rating (c_now c) (c_rating c) rid d = Inr (d\<lparr>ratings := map ?f (ratings d)\<rparr>)"
    by (simp add: update_rating_def rating_column_valid)
  with st have p': "p' = Wrote 200 rid" and d': "d' = d\<lparr>ratings := map ?f (ratings d)\<rparr>"
    by simp_all
  from update_rating_ok[OF upd ok] d' have ok': "ratings_ok d'"
    by simp
  from found_row_is_the_row[OF ok ex] obtain old
    where old: "ratings_of d u s = [old]" "r_id old = rid"
    by blast
  then have "ratings_of d' u s = [old\<lparr>r_rating := x, r_updated_at := c_now c\<rparr>]"
    by (simp add: d' ratings_of_update)
  then have lw: "latest_written u s d' (c_rating c # h)"
    by (simp add: latest_written_def c)
  have others: "phase_inv u s d' (c_rating c # h) q" if "phase_inv u s d h q" for q
    using that
  proof (rule phase_inv_mono)
    fix rid'
    assume "list_ex (\<lambda>r. r_id r = rid' \<and> r_user_id r = u \<and> r_store_id r = s) (ratings d)"
    then show "list_ex (\<lambda>r. r_id r = rid' \<and> r_user_id r = u \<and> r_store_id r = s) (ratings d')"
      by (simp add: d' list_ex_map_upd)
  qed simp
  from p' ok' lw others show ?thesis
    by simp
qed

lemma step_insert:
  assumes valid: "valid_call u s c" and ok: "ratings_ok d"
    and own: "phase_inv u s d h (Looked usr None)"
    and st: "submit_step c (Looked usr None) d = (p', d')"
  shows "(if is_write (Looked usr None) p'
          then ratings_ok d' \<and> latest_written u s d' (c_rating c # h) \<and>
               (\<forall>q. phase_inv u s d h q \<longrightarrow> phase_inv u s d' (c_rating c # h) q)
          else d' = d \<and> phase_inv u s d h p')"
proof (cases "list_ex (\<lambda>r. r_user_id r = u \<and> r_store_id r = s) (ratings d)")
  case True
  from valid obtain usr' x where c: "c_store c = s" "c_rating c = Some x" "1 \<le> x" "x \<le> 5"
    by (rule valid_callE)
  from own have usr: "i_id usr = u" and seen: "ratings_of d u s = [] \<or> h \<noteq> []"
    by simp_all
  from True have "ratings_of d u s \<noteq> []"
    by (simp add: ratings_of_def filter_empty_conv list_ex_iff)
  with seen have "h \<noteq> []"
    by simp
  moreover from st True c usr have "p' = Finished server_error" "d' = d"
    by (simp_all add: insert_rating_def rating_column_valid)
  ultimately show ?thesis
    by simp
next
  case False
  from valid obtain usr' x where c: "c_store c = s" "c_rating c = Some x" "1 \<le> x" "x \<le> 5"
    by (rule valid_callE)
  from own have usr: "i_id usr = u"
    by simp
  let ?new = "\<lparr>r_id = ratings_seq d + 1, r_user_id = u, r_store_id = s, r_rating = x,
                 r_created_at = c_now c, r_updated_at = c_now c\<rparr>"
  let ?d' = "d\<lparr>ratings := ratings d @ [?new], ratings_seq := ratings_seq d + 1\<rparr>"
  from False c usr have ins: "insert_rating (c_now c) (i_id usr) (c_store c) (c_rating c) d =
                               Inr (ratings_seq d + 1, ?d')"
    by (simp add: insert_rating_def rating_column_valid Let_def)
  with st have p': "p' = Wrote 201 (ratings_seq d + 1)" and d': "d' = ?d'"
    by simp_all
  from insert_rating_ok[OF ins ok] d' have ok': "ratings_ok d'"
    by simp
  from False have "ratings_of d u s = []"
    by (simp add: ratings_of_def filter_empty_conv list_ex_iff)
  then have "ratings_of d' u s = [?new]"
    by (simp add: d' ratings_of_def)
  then have lw: "latest_written u s d' (c_rating c # h)"
    by (simp add: latest_written_def c)
  have others: "phase_inv u s d' (c_rating c # h) q" if "phase_inv u s d h q" for q
    using that
  proof (rule phase_inv_mono)
    fix rid'
    assume "list_ex (\<lambda>r. r_id r = rid' \<and> r_user_id r = u \<and> r_store_id r = s) (ratings d)"
    then show "list_ex (\<lambda>r. r_id r = rid' \<and> r_user_id r = u \<and> r_store_id r = s) (ratings d')"
      by (simp add: d')
  qed simp
  from p' ok' lw others show ?thesis
    by simp
qed

text \<open>
  One step of a valid call: the table constraints, the call's own invariant, the
  invariant of any other call in flight and the link between history and row all
  survive. \<open>h'\<close> is the history after the step.
\<close>

lemma step_keeps_inv:
  assumes valid: "valid_call u s c" and ok: "ratings_ok d"
    and own: "phase_inv u s d h p" and lw: "latest_written u s d h"
    and st: "submit_step c p d = (p', d')"
    and h': "h' = (if is_write p p' then c_rating c # h else h)"
  shows "ratings_ok d' \<and> phase_inv u s d' h' p' \<and> latest_written u s d' h' \<and>
         (\<forall>q. phase_inv u s d h q \<longrightarrow> phase_inv u s d' h' q)"
proof (cases p)
  case Start
  with step_start[OF valid, of d p' d' h] st h' ok lw show ?thesis
    by auto
next
  case (Looked usr e)
  show ?thesis
  proof (cases e)
    case None
    with Looked step_insert[OF valid ok, of h usr p' d'] own st h' ok lw show ?thesis
      by (cases "is_write (Looked usr None) p'") (cases p'; auto)+
  next
    case (Some rid)
    with Looked step_update[OF valid ok, of h usr rid p' d'] own st h' show ?thesis
      by (cases p') auto
  qed
next
  case (Wrote st' rid)
  with own st h' ok lw show ?thesis
    by auto
next
  case (Finished resp)
  with own st h' ok lw show ?thesis
    by auto
qed

subsection \<open>Every schedule keeps the invariant and ends\<close>

lemma race_step_inv:
  assumes va: "valid_call u s ca" and vb: "valid_call u s cb" and inv: "race_inv u s r"
  shows "race_inv u s (race_step ca cb t r)"
proof (cases t)
  case A
  obtain p d where st: "submit_step ca (phase_a r) (shared r) = (p, d)"
    by (cases "submit_step ca (phase_a r) (shared r)")
  from inv have "ratings_ok (shared r)" "phase_inv u s (shared r) (commits r) (phase_a r)"
    "latest_written u s (shared r) (commits r)"
    and other: "phase_inv u s (shared r) (commits r) (phase_b r)"
    by (simp_all add: race_inv_def)
  from step_keeps_inv[OF va this(1-3) st refl] other A st show ?thesis
    by (simp add: race_inv_def)
next
  case B
  obtain p d where st: "submit_step cb (phase_b r) (shared r) = (p, d)"
    by (cases "submit_step cb (phase_b r) (shared r)")
  from inv have "ratings_ok (shared r)" "phase_inv u s (shared r) (commits r) (phase_b r)"
    "latest_written u s (shared r) (commits r)"
    and other: "phase_inv u s (shared r) (commits r) (phase_a r)"
    by (simp_all add: race_inv_def)
  from step_keeps_inv[OF vb this(1-3) st refl] other B st show ?thesis
    by (simp add: race_inv_def)
qed

lemma run_schedule_inv:
  "valid_call u s ca \<Longrightarrow> valid_call u s cb \<Longrightarrow> race_inv u s r \<Longrightarrow>
     race_inv u s (run_schedule ca cb sch r)"
  by (induction sch arbitrary: r) (simp_all add: race_step_inv)

lemma race_start_inv: "ratings_ok d \<Longrightarrow> race_inv u s (race_start d)"
  by (simp add: race_inv_def race_start_def latest_written_def)

lemma submit_step_progress:
  "steps_left (fst (submit_step c p d)) \<le> steps_left p - 1"
proof (cases p)
  case Start
  then show ?thesis
    by (cases "c_cred c") auto
next
  case (Looked usr e)
  then show ?thesis
    by (cases e) (auto split: sum.splits)
qed auto

lemma race_step_left:
  "steps_left (phase_a (race_step ca cb t r)) \<le> steps_left (phase_a r) - (if t = A then 1 else 0) \<and>
   steps_left (phase_b (race_step ca cb t r)) \<le> steps_left (phase_b r) - (if t = B then 1 else 0)"
proof (cases t)
  case A
  with submit_step_progress[of ca "phase_a r" "shared r"] show ?thesis
    by (cases "submit_step ca (phase_a r) (shared r)") simp
next
  case B
  with submit_step_progress[of cb "phase_b r" "shared r"] show ?thesis
    by (cases "submit_step cb (phase_b r) (shared r)") simp
qed

lemma run_schedule_left:
  "steps_left (phase_a (run_schedule ca cb sch r)) \<le> steps_left (phase_a r) - count_list sch A \<and>
   steps_left (phase_b (run_schedule ca cb sch r)) \<le> steps_left (phase_b r) - count_list sch B"
proof (induction sch arbitrary: r)
  case Nil
  then show ?case
    by simp
next
  case (Cons t sch)
  from Cons.IH[of "race_step ca cb t r"] race_step_left[of ca cb t r] show ?case
    by (cases t) auto
qed

lemma steps_left_zero: "steps_left p = 0 \<Longrightarrow> is_finished p"
  by (cases p) simp_all

lemma complete_finishes:
  assumes "complete sch"
  shows "is_finished (phase_a (run_schedule ca cb sch (race_start d))) \<and>
         is_finished (phase_b (run_schedule ca cb sch (race_start d)))"
proof -
  from assms run_schedule_left[of ca cb sch "race_start d"]
  have "steps_left (phase_a (run_schedule ca cb sch (race_start d))) = 0"
    "steps_left (phase_b (run_schedule ca cb sch (race_start d))) = 0"
    by (simp_all add: complete_def race_start_def)
  then show ?thesis
    by (simp add: steps_left_zero)
qed

lemma finished_has_written:
  "phase_inv u s d h p \<Longrightarrow> is_finished p \<Longrightarrow> h \<noteq> []"
  by (cases p) simp_all

text \<open>
  Claim C9, as the code has it. Two calls of the rating route for the same user and
  store, each with a value from 1 to 5, run from a state that satisfies the table
  constraints, their statements interleaved in any order. At every point of every
  schedule the pair has at most one row. Once each call has had its three turns, both
  have answered, the pair has exactly one row, and that row holds the value of the
  write statement that succeeded last. The single row is the work of
  \<open>UNIQUE (user_id, store_id)\<close>, which turns away a second INSERT; the route itself is
  a lookup followed by a separate write (\<open>submit_alone_is_handler\<close>).
\<close>

theorem racing_calls_one_row:
  "ratings_ok d \<Longrightarrow> valid_call u s ca \<Longrightarrow> valid_call u s cb \<Longrightarrow>
     length (ratings_of (shared (run_schedule ca cb sch (race_start d))) u s) \<le> 1 \<and>
     (complete sch \<longrightarrow>
        is_finished (phase_a (run_schedule ca cb sch (race_start d))) \<and>
        is_finished (phase_b (run_schedule ca cb sch (race_start d))) \<and>
        (\<exists>row rest.
           ratings_of (shared (run_schedule ca cb sch (race_start d))) u s = [row] \<and>
           commits (run_schedule ca cb sch (race_start d)) = Some (r_rating row) # rest))"
proof -
  assume ok: "ratings_ok d" and va: "valid_call u s ca" and vb: "valid_call u s cb"
  let ?r = "run_schedule ca cb sch (race_start d)"
  from run_schedule_inv[OF va vb race_start_inv[OF ok], of sch]
  have inv: "race_inv u s ?r" .
  then have ok': "ratings_ok (shared ?r)"
    by (simp add: race_inv_def)
  from ratings_of_cases[OF ok', of u s] have most: "length (ratings_of (shared ?r) u s) \<le> 1"
    by auto
  have "\<exists>row rest. ratings_of (shared ?r) u s = [row] \<and> commits ?r = Some (r_rating row) # rest"
    if fin: "is_finished (phase_a ?r)"
  proof -
    from inv have "phase_inv u s (shared ?r) (commits ?r) (phase_a ?r)"
      by (simp add: race_inv_def)
    from finished_has_written[OF this fin] obtain v rest where h: "commits ?r = v # rest"
      by (cases "commits ?r") auto
    from inv have "latest_written u s (shared ?r) (commits ?r)"
      by (simp add: race_inv_def)
    with h show ?thesis
      by (auto simp: latest_written_def split: list.splits)
  qed
  with most complete_finishes[of sch ca cb d] show ?thesis
    by blast
qed

lemma racing_fixtures:
  "ratings_ok fresh_db" "valid_call 2 1 call_four" "valid_call 2 1 call_five"
  by (simp_all add: fresh_db_ok valid_call_def call_four_def call_five_def alice_def)

text \<open>
  The first call looks and inserts 4; the second looks, finds the row and, after the
  first has answered, updates it to 5.
\<close>

theorem racing_calls_one_row_witness:
  "complete [A, A, B, A, B, B] \<and>
   map r_rating
     (ratings_of (shared (run_schedule call_four call_five [A, A, B, A, B, B]
        (race_start fresh_db))) 2 1) = [5] \<and>
   commits (run_schedule call_four call_five [A, A, B, A, B, B] (race_start fresh_db)) =
     [Some 5, Some 4]"
proof -
  have sch: "complete [A, A, B, A, B, B]"
    by (simp add: complete_def)
  have run: "run_schedule call_four call_five [A, A, B, A, B, B] (race_start fresh_db) =
     \<lparr>phase_a = Finished (Response 201 (RatingJson (Some
          \<lparr>v_id = 1, v_user_id = 2, v_store_id = 1, v_rating = 4\<rparr>))),
      phase_b = Finished (Response 200 (RatingJson (Some
          \<lparr>v_id = 1, v_user_id = 2, v_store_id = 1, v_rating = 5\<rparr>))),
      shared = once_db\<lparr>ratings :=
                 [\<lparr>r_id = 1, r_user_id = 2, r_store_id = 1, r_rating = 5,
                   r_created_at = 10, r_updated_at = 11\<rparr>]\<rparr>,
      commits = [Some 5, Some 4]\<rparr>"
    by (simp add: race_start_def call_four_def call_five_def alice_def fresh_db_def once_db_def
          js_lt_def js_gt_def select_rating_id_def select_rating_view_def insert_rating_def
          update_rating_def rating_column_def Let_def)
  from racing_calls_one_row[OF racing_fixtures, of "[A, A, B, A, B, B]"] sch
  show ?thesis
    unfolding run by (simp add: ratings_of_def once_db_def fresh_db_def)
qed

text \<open>
  Against claim C9 as the specification words it (a single atomic conditional write):
  both calls look before either writes. The INSERT of the second call breaks the
  uniqueness constraint, the call is answered 500 "Server error" and its value 5 is
  dropped. Run one after the other, in either order, the later call is answered 200.
\<close>

theorem racing_calls_not_atomic:
  "run_schedule call_four call_five [A, B, A, B, A, B] (race_start fresh_db) =
     \<lparr>phase_a = Finished (Response 201 (RatingJson (Some
          \<lparr>v_id = 1, v_user_id = 2, v_store_id = 1, v_rating = 4\<rparr>))),
      phase_b = Finished (Response 500 (Message ''Server error'')),
      shared = once_db,
      commits = [Some 4]\<rparr> \<and>
   fst (submit_call call_five (snd (submit_call call_four fresh_db))) =
     Response 200 (RatingJson (Some
        \<lparr>v_id = 1, v_user_id = 2, v_store_id = 1, v_rating = 5\<rparr>)) \<and>
   fst (submit_call call_four (snd (submit_call call_five fresh_db))) =
     Response 200 (RatingJson (Some
        \<lparr>v_id = 1, v_user_id = 2, v_store_id = 1, v_rating = 4\<rparr>))"
  by (simp add: race_start_def call_four_def call_five_def alice_def fresh_db_def once_db_def
        submit_call_def submitRating_def server_error_def
        js_lt_def js_gt_def select_rating_id_def select_rating_view_def insert_rating_def
        update_rating_def rating_column_def Let_def)

section \<open>The table constraints survive every operation\<close>

lemma submitRating_other_tables:
  "users (snd (submitRating now cred sid v d)) = users d \<and>
   stores (snd (submitRating now cred sid v d)) = stores d \<and>
   owner_requests_seq (snd (submitRating now cred sid v d)) = owner_requests_seq d"
  by (cases cred)
     (auto simp: submitRating_def update_rating_def insert_rating_def Let_def
        split: option.splits sum.splits if_splits)

lemma workflow_keeps_ratings:
  "ratings (snd (requestOwner now cred d)) = ratings d \<and>
   ratings_seq (snd (requestOwner now cred d)) = ratings_seq d \<and>
   ratings (snd (approveOwnerRequest now cred qid d)) = ratings d \<and>
   ratings_seq (snd (approveOwnerRequest now cred qid d)) = ratings_seq d \<and>
   ratings (snd (rejectOwnerRequest now cred qid reason d)) = ratings d \<and>
   ratings_seq (snd (rejectOwnerRequest now cred qid reason d)) = ratings_seq d"
  by (cases cred)
     (auto simp: requestOwner_def approveOwnerRequest_def rejectOwnerRequest_def
        insert_owner_request_def update_role_owner_def update_request_approved_def
        update_request_rejected_def Let_def
        split: option.splits sum.splits if_splits)

lemma perform_ratings_ok:
  "ratings_ok d \<Longrightarrow> ratings_ok (snd (perform x d))"
proof (cases x)
  case (Rate now cred sid v)
  assume "ratings_ok d"
  with Rate show ?thesis
    by (simp add: submitRating_ok)
next
  case (AskOwner now cred)
  assume "ratings_ok d"
  with AskOwner workflow_keeps_ratings[of now cred d] show ?thesis
    by (simp add: ratings_ok_def)
next
  case (Approve now cred qid)
  assume "ratings_ok d"
  with Approve workflow_keeps_ratings[of now cred d qid] show ?thesis
    by (simp add: ratings_ok_def)
next
  case (Reject now cred qid reason)
  assume "ratings_ok d"
  with Reject workflow_keeps_ratings[of now cred d qid reason] show ?thesis
    by (simp add: ratings_ok_def)
qed

lemma perform_all_ratings_ok:
  "ratings_ok d \<Longrightarrow> ratings_ok (perform_all xs d)"
  by (induction xs arbitrary: d) (simp_all add: perform_ratings_ok)

lemma requestOwner_requests_ok:
  "requests_ok d \<Longrightarrow> requests_ok (snd (requestOwner now cred d))"
  by (cases cred)
     (fastforce simp: requestOwner_def insert_owner_request_def requests_ok_def list_all_iff
        Let_def split: option.splits sum.splits if_splits)+

lemma map_upd_proj_comp:
  "(\<And>r. g (h r) = g r) \<Longrightarrow> map (g \<circ> (\<lambda>r. if P r then h r else r)) xs = map g xs"
  by (induction xs) auto

lemma submitRating_requests_ok:
  "requests_ok d \<Longrightarrow> requests_ok (snd (submitRating now cred sid v d))"
  by (simp add: requests_ok_def submitRating_requests submitRating_other_tables)

lemma approve_requests_ok:
  "requests_ok d \<Longrightarrow> requests_ok (snd (approveOwnerRequest now cred qid d))"
  by (cases cred)
     (auto simp: approveOwnerRequest_def update_role_owner_def update_request_approved_def
        requests_ok_def list_all_iff map_upd_proj_comp Let_def split: option.splits)

lemma reject_requests_ok:
  "requests_ok d \<Longrightarrow> requests_ok (snd (rejectOwnerRequest now cred qid reason d))"
  by (cases cred)
     (auto simp: rejectOwnerRequest_def update_request_rejected_def
        requests_ok_def list_all_iff map_upd_proj_comp Let_def split: option.splits)

lemma perform_requests_ok:
  "requests_ok d \<Longrightarrow> requests_ok (snd (perform x d))"
  by (cases x)
     (simp_all add: requestOwner_requests_ok approve_requests_ok reject_requests_ok
        submitRating_requests_ok)

lemma perform_all_requests_ok:
  "requests_ok d \<Longrightarrow> requests_ok (perform_all xs d)"
  by (induction xs arbitrary: d) (simp_all add: perform_requests_ok)

lemma fresh_db_requests_ok: "requests_ok fresh_db"
  by (simp add: requests_ok_def fresh_db_def)

end
